theory Spec2Isabelle
  imports Complex_Main "HOL-Library.AList"
begin

section \<open>Data model (lib/types)\<close>

text \<open>
  \<^verbatim>\<open>NoteDuration = "whole" | "half" | "quarter" | "eighth" | "sixteenth"\<close>;
  \<^verbatim>\<open>Note = { step: number, pitch: string, duration?: NoteDuration }\<close>, the duration being
  optional (\<open>None\<close> is the absent field);
  \<^verbatim>\<open>Track = { id, instrument, notes, volume, muted }\<close>. The fields \<open>id\<close> and \<open>notes\<close> are named
  \<open>id_track\<close> and \<open>notes_track\<close> here (\<open>id\<close> is the identity function of HOL, \<open>notes\<close> an Isar keyword).
\<close>

datatype NoteDuration = Whole | Half | Quarter | Eighth | Sixteenth

record Note =
  step :: int
  pitch :: string
  duration :: "NoteDuration option"

record Track =
  id_track :: string
  instrument :: string
  notes_track :: "Note list"
  volume :: int
  muted :: bool

section \<open>Tone.js objects as far as the component uses them\<close>

text \<open>
  The five synth classes handed to \<^verbatim>\<open>new Tone.PolySynth(...)\<close>.
\<close>

datatype VoiceFamily = Synth | AMSynth | FMSynth | MonoSynth | MembraneSynth

text \<open>
  A live synth handle. \<open>family\<close> and \<open>volume_value\<close> are what the component sets; the
  flags say how the handle answers the calls the component guards with
  \<^verbatim>\<open>try/catch\<close> or \<^verbatim>\<open>typeof\<close>: whether \<^verbatim>\<open>releaseAll()\<close>, \<^verbatim>\<open>dispose()\<close> or
  \<^verbatim>\<open>triggerAttackRelease()\<close> throws, and whether \<^verbatim>\<open>dispose\<close> and
  \<^verbatim>\<open>triggerAttackRelease\<close> are functions (calling what is not a function throws).
\<close>

record SynthHandle =
  family :: VoiceFamily
  volume_value :: int
  releaseAll_throws :: bool
  has_dispose :: bool
  dispose_throws :: bool
  has_trigger :: bool
  trigger_throws :: bool

definition newPolySynth :: "VoiceFamily \<Rightarrow> SynthHandle" where
  "newPolySynth fam =
     \<lparr>family = fam, volume_value = 0, releaseAll_throws = False, has_dispose = True,
      dispose_throws = False, has_trigger = True, trigger_throws = False\<rparr>"

text \<open>
  The \<^verbatim>\<open>Tone.Sequence\<close> built by \<open>createSequence\<close>: its callback closes over the
  \<open>tracks\<close> of the render that built it; \<open>seq_steps\<close> is the length of its event array.
\<close>

record Sequence =
  seq_tracks :: "Track list"
  seq_steps :: nat
  seq_dispose_throws :: bool

datatype TransportState = Started | Stopped | Paused

text \<open>
  \<^verbatim>\<open>Tone.Transport\<close>; \<open>position\<close> counts eighth-note steps from the loop start.
\<close>

record Transport =
  t_state :: TransportState
  position :: nat
  loop :: bool
  loopStart :: nat
  loopEnd :: nat

text \<open>What the component does to the outside: calls on Tone objects and console output.\<close>

datatype event =
    ReleaseAllCalled string
  | DisposeCalled string
  | SequenceDisposeCalled
  | TransportStopCalled
  | Triggered string string string rat
  | ConsoleWarn string
  | ConsoleError string

datatype error = TypeError | ToneError

section \<open>Component state\<close>

text \<open>
  The \<^verbatim>\<open>useState\<close> cells and the two \<^verbatim>\<open>useRef\<close> cells of \<open>OrchestraBuilder\<close>, with the
  Tone singletons it writes. \<open>synthsRef\<close> is the object \<^verbatim>\<open>synthsRef.current\<close>, keyed by track
  id; the order of the list stands for the enumeration order of \<^verbatim>\<open>Object.values\<close>.
  Every handler is modelled on the state of the render it runs in.
\<close>

record State =
  tracks :: "Track list"
  currentTrackId :: string
  isPlaying :: bool
  currentStep :: int
  totalSteps :: nat
  activeDuration :: NoteDuration
  synthsRef :: "(string \<times> SynthHandle) list"
  sequencerRef :: "Sequence option"
  transport :: Transport
  contextRunning :: bool
  events :: "event list"

definition initialTrack :: Track where
  "initialTrack = \<lparr>id_track = ''1'', instrument = ''piano'', notes_track = [], volume = 0, muted = False\<rparr>"

definition initialState :: State where
  "initialState =
     \<lparr>tracks = [initialTrack], currentTrackId = ''1'', isPlaying = False, currentStep = 0,
      totalSteps = 16, activeDuration = Quarter, synthsRef = [], sequencerRef = None,
      transport = \<lparr>t_state = Stopped, position = 0, loop = False, loopStart = 0, loopEnd = 0\<rparr>,
      contextRunning = False, events = []\<rparr>"

section \<open>Number.prototype.toString for integers\<close>

definition digit_char :: "nat \<Rightarrow> char" where
  "digit_char d = ''0123456789'' ! d"

fun toString_nat :: "nat \<Rightarrow> string" where
  "toString_nat n =
     (if n < 10 then [digit_char n] else toString_nat (n div 10) @ [digit_char (n mod 10)])"

declare toString_nat.simps [simp del]

definition toString_int :: "int \<Rightarrow> string" where
  "toString_int k = (if k < 0 then CHR ''-'' # toString_nat (nat (- k)) else toString_nat (nat k))"

section \<open>Track and note mutations\<close>

text \<open>\<open>addTrack\<close>: the new id is \<^verbatim>\<open>(tracks.length + 1).toString()\<close>.\<close>

definition addTrack :: "State \<Rightarrow> State" where
  "addTrack st =
     (let newTrackId = toString_nat (length (tracks st) + 1) in
      st\<lparr>tracks := tracks st @
            [\<lparr>id_track = newTrackId, instrument = ''piano'', notes_track = [], volume = 0, muted = False\<rparr>],
         currentTrackId := newTrackId\<rparr>)"

text \<open>
  The guarded disposal shared by \<open>removeTrack\<close> and \<open>updateTrackInstrument\<close>:
  \<^verbatim>\<open>try { s.releaseAll(); s.dispose(); delete synthsRef.current[id] } catch { console.error }\<close>.
  A throw leaves the rest of the block undone.
\<close>

definition disposeSynthOf :: "string \<Rightarrow> State \<Rightarrow> State" where
  "disposeSynthOf i st =
     (case map_of (synthsRef st) i of
        None \<Rightarrow> st
      | Some s \<Rightarrow>
          if releaseAll_throws s then
            st\<lparr>events := events st @ [ReleaseAllCalled i, ConsoleError i]\<rparr>
          else if \<not> has_dispose s \<or> dispose_throws s then
            st\<lparr>events := events st @ [ReleaseAllCalled i, DisposeCalled i, ConsoleError i]\<rparr>
          else
            st\<lparr>synthsRef := AList.delete i (synthsRef st),
               events := events st @ [ReleaseAllCalled i, DisposeCalled i]\<rparr>)"

text \<open>
  \<open>removeTrack\<close>. \<^verbatim>\<open>remainingTracks[0].id\<close> on an empty remainder is a \<open>TypeError\<close>, raised
  after \<^verbatim>\<open>setTracks\<close> has been called: the result carries both the error and the state.
\<close>

definition removeTrack :: "string \<Rightarrow> State \<Rightarrow> error option \<times> State" where
  "removeTrack i st =
     (if length (tracks st) \<le> 1 then (None, st)
      else
        let st1 = disposeSynthOf i st;
            st2 = st1\<lparr>tracks := filter (\<lambda>track. id_track track \<noteq> i) (tracks st)\<rparr>
        in if currentTrackId st = i then
             (case filter (\<lambda>track. id_track track \<noteq> i) (tracks st) of
                [] \<Rightarrow> (Some TypeError, st2)
              | t # _ \<Rightarrow> (None, st2\<lparr>currentTrackId := id_track t\<rparr>))
           else (None, st2))"

definition updateTrackVolume :: "string \<Rightarrow> int \<Rightarrow> State \<Rightarrow> State" where
  "updateTrackVolume i v st =
     st\<lparr>tracks := map (\<lambda>track. if id_track track = i then track\<lparr>volume := v\<rparr> else track) (tracks st),
        synthsRef := (case map_of (synthsRef st) i of
                        None \<Rightarrow> synthsRef st
                      | Some s \<Rightarrow> AList.update i (s\<lparr>volume_value := v\<rparr>) (synthsRef st))\<rparr>"

definition toggleTrackMute :: "string \<Rightarrow> State \<Rightarrow> State" where
  "toggleTrackMute i st =
     st\<lparr>tracks := map (\<lambda>track. if id_track track = i then track\<lparr>muted := \<not> muted track\<rparr> else track)
                     (tracks st)\<rparr>"

text \<open>
  \<open>addNote\<close>, the note toggle. The fourth parameter defaults to \<open>activeDuration\<close>.
  \<^verbatim>\<open>tracks.find\<close> takes the first track with the id; \<^verbatim>\<open>tracks.map\<close> rewrites every
  track with the id.
\<close>

definition addNote :: "string \<Rightarrow> int \<Rightarrow> string \<Rightarrow> NoteDuration option \<Rightarrow> State \<Rightarrow> State" where
  "addNote trackId stp ptch durArg st =
     (let dur = (case durArg of None \<Rightarrow> activeDuration st | Some d \<Rightarrow> d) in
      case find (\<lambda>t. id_track t = trackId) (tracks st) of
        None \<Rightarrow> st
      | Some track \<Rightarrow>
          if list_ex (\<lambda>note. step note = stp \<and> pitch note = ptch) (notes_track track) then
            st\<lparr>tracks :=
                 map (\<lambda>t. if id_track t = trackId
                          then t\<lparr>notes_track := filter (\<lambda>note. \<not> (step note = stp \<and> pitch note = ptch)) (notes_track t)\<rparr>
                          else t) (tracks st)\<rparr>
          else
            st\<lparr>tracks :=
                 map (\<lambda>t. if id_track t = trackId
                          then t\<lparr>notes_track := notes_track t @ [\<lparr>step = stp, pitch = ptch, duration = Some dur\<rparr>]\<rparr>
                          else t) (tracks st)\<rparr>)"

definition clearTrack :: "string \<Rightarrow> State \<Rightarrow> State" where
  "clearTrack trackId st =
     st\<lparr>tracks := map (\<lambda>track. if id_track track = trackId then track\<lparr>notes_track := []\<rparr> else track)
                     (tracks st)\<rparr>"

section \<open>Instrument to synth class\<close>

text \<open>The \<^verbatim>\<open>switch (track.instrument)\<close> of the initialising effect.\<close>

definition initSynthFamily :: "string \<Rightarrow> VoiceFamily" where
  "initSynthFamily instr =
     (if instr \<in> set [''piano'', ''harpsichord'', ''organ'', ''synthesizer''] then Synth
      else if instr \<in> set [''violin'', ''viola'', ''cello'', ''guitar'', ''harp''] then AMSynth
      else if instr \<in> set [''flute'', ''clarinet'', ''oboe'', ''bassoon''] then FMSynth
      else if instr \<in> set [''trumpet'', ''trombone'', ''french horn'', ''tuba''] then MonoSynth
      else if instr \<in> set [''drums'', ''timpani'', ''xylophone'', ''marimba''] then MembraneSynth
      else Synth)"

text \<open>The \<^verbatim>\<open>switch (instrument)\<close> of \<open>updateTrackInstrument\<close>.\<close>

definition updateSynthFamily :: "string \<Rightarrow> VoiceFamily" where
  "updateSynthFamily instr =
     (if instr \<in> set [''piano'', ''harpsichord'', ''organ'', ''synthesizer''] then Synth
      else if instr \<in> set [''violin'', ''viola'', ''cello'', ''guitar'', ''harp''] then AMSynth
      else if instr \<in> set [''flute'', ''clarinet'', ''oboe'', ''bassoon''] then FMSynth
      else if instr \<in> set [''trumpet'', ''trombone'', ''french horn'', ''tuba''] then MonoSynth
      else if instr \<in> set [''drums'', ''timpani'', ''xylophone'', ''marimba''] then MembraneSynth
      else Synth)"

text \<open>The instrument names that have a \<^verbatim>\<open>case\<close> label in the two switches.\<close>

definition listedInstruments :: "string list" where
  "listedInstruments =
     [''piano'', ''harpsichord'', ''organ'', ''synthesizer'',
      ''violin'', ''viola'', ''cello'', ''guitar'', ''harp'',
      ''flute'', ''clarinet'', ''oboe'', ''bassoon'',
      ''trumpet'', ''trombone'', ''french horn'', ''tuba'',
      ''drums'', ''timpani'', ''xylophone'', ''marimba'']"

text \<open>
  The initialising effect (body): a synth for every track that has none, then the volume
  of every registered synth set from its track.
\<close>

definition ensureSynth :: "Track \<Rightarrow> (string \<times> SynthHandle) list \<Rightarrow> (string \<times> SynthHandle) list" where
  "ensureSynth track reg =
     (case map_of reg (id_track track) of
        Some s \<Rightarrow> reg
      | None \<Rightarrow>
          AList.update (id_track track)
            ((newPolySynth (initSynthFamily (instrument track)))\<lparr>volume_value := volume track\<rparr>) reg)"

definition syncVolume :: "Track \<Rightarrow> (string \<times> SynthHandle) list \<Rightarrow> (string \<times> SynthHandle) list" where
  "syncVolume track reg =
     (case map_of reg (id_track track) of
        None \<Rightarrow> reg
      | Some s \<Rightarrow> AList.update (id_track track) (s\<lparr>volume_value := volume track\<rparr>) reg)"

definition initEffect :: "State \<Rightarrow> State" where
  "initEffect st =
     st\<lparr>synthsRef := fold syncVolume (tracks st) (fold ensureSynth (tracks st) (synthsRef st))\<rparr>"

text \<open>
  \<open>updateTrackInstrument\<close>: guarded disposal of the old synth, the track rewritten, a new
  synth of the instrument's class stored under the id with the track's volume (the volume
  of a fresh synth when no track has the id).
\<close>

definition updateTrackInstrument :: "string \<Rightarrow> string \<Rightarrow> State \<Rightarrow> State" where
  "updateTrackInstrument i instr st =
     (let st1 = disposeSynthOf i st;
          synth = newPolySynth (updateSynthFamily instr);
          synth' = (case find (\<lambda>t. id_track t = i) (tracks st) of
                      None \<Rightarrow> synth
                    | Some track \<Rightarrow> synth\<lparr>volume_value := volume track\<rparr>)
      in st1\<lparr>tracks := map (\<lambda>track. if id_track track = i then track\<lparr>instrument := instr\<rparr> else track)
                          (tracks st),
             synthsRef := AList.update i synth' (synthsRef st1)\<rparr>)"

section \<open>Teardown\<close>

text \<open>
  The cleanup returned by the initialising effect (\<^verbatim>\<open>// Clean up all synths when component
  unmounts\<close>): \<^verbatim>\<open>Object.values(synthsRef.current).forEach(s => s.dispose())\<close> with no
  \<^verbatim>\<open>try\<close>, then the sequencer, then both refs cleared. The first throw leaves the
  function: the result is the events so far and the error thrown, if any.
\<close>

fun disposeAllUnguarded :: "(string \<times> SynthHandle) list \<Rightarrow> event list \<times> error option" where
  "disposeAllUnguarded [] = ([], None)"
| "disposeAllUnguarded ((k, s) # rest) =
     (if \<not> has_dispose s then ([], Some TypeError)
      else if dispose_throws s then ([DisposeCalled k], Some ToneError)
      else (let (es, thrown) = disposeAllUnguarded rest in (DisposeCalled k # es, thrown)))"

definition effectCleanup :: "State \<Rightarrow> error option \<times> State" where
  "effectCleanup st =
     (let (es, thrown) = disposeAllUnguarded (synthsRef st);
          st1 = st\<lparr>events := events st @ es\<rparr>
      in case thrown of
           Some e \<Rightarrow> (Some e, st1)
         | None \<Rightarrow>
             (case sequencerRef st of
                None \<Rightarrow> (None, st1\<lparr>synthsRef := [], sequencerRef := None\<rparr>)
              | Some sq \<Rightarrow>
                  if seq_dispose_throws sq then
                    (Some ToneError, st1\<lparr>events := events st1 @ [SequenceDisposeCalled]\<rparr>)
                  else
                    (None, st1\<lparr>events := events st1 @ [SequenceDisposeCalled],
                               synthsRef := [], sequencerRef := None\<rparr>)))"

text \<open>
  The cleanup of the second effect (\<^verbatim>\<open>// Add this useEffect for proper cleanup when component
  unmounts\<close>): the transport stopped, every synth disposed inside its own \<^verbatim>\<open>try/catch\<close>
  when \<^verbatim>\<open>typeof synth.dispose === "function"\<close>, the sequencer disposed inside a
  \<^verbatim>\<open>try/catch\<close>, both refs cleared.
\<close>

definition guardedDispose :: "string \<times> SynthHandle \<Rightarrow> event list" where
  "guardedDispose ks =
     (if has_dispose (snd ks) then
        (if dispose_throws (snd ks) then [DisposeCalled (fst ks), ConsoleError (fst ks)]
         else [DisposeCalled (fst ks)])
      else [])"

definition transportStop :: "Transport \<Rightarrow> Transport" where
  "transportStop T = T\<lparr>t_state := Stopped, position := 0\<rparr>"

definition unmountCleanup :: "State \<Rightarrow> State" where
  "unmountCleanup st =
     (let st1 = (if t_state (transport st) \<noteq> Stopped
                 then st\<lparr>transport := transportStop (transport st),
                         events := events st @ [TransportStopCalled]\<rparr>
                 else st);
          es = concat (map guardedDispose (synthsRef st1));
          sq = (case sequencerRef st1 of
                  None \<Rightarrow> []
                | Some q \<Rightarrow> if seq_dispose_throws q
                            then [SequenceDisposeCalled, ConsoleError ''sequencer'']
                            else [SequenceDisposeCalled])
      in st1\<lparr>events := events st1 @ es @ sq, synthsRef := [], sequencerRef := None\<rparr>)"

section \<open>Playback\<close>

text \<open>The \<^verbatim>\<open>switch (note.duration)\<close> of the sequence callback, with its \<^verbatim>\<open>default\<close> arm.\<close>

definition toneDuration :: "NoteDuration option \<Rightarrow> string" where
  "toneDuration d =
     (case d of
        Some Whole \<Rightarrow> ''1n''
      | Some Half \<Rightarrow> ''2n''
      | Some Quarter \<Rightarrow> ''4n''
      | Some Eighth \<Rightarrow> ''8n''
      | Some Sixteenth \<Rightarrow> ''16n''
      | None \<Rightarrow> ''8n'')"


text \<open>
  \<^verbatim>\<open>notesToPlay.forEach(note => synth.triggerAttackRelease(note.pitch, duration, time))\<close>:
  a throw ends the loop.
\<close>

fun triggerNotes :: "string \<Rightarrow> SynthHandle \<Rightarrow> rat \<Rightarrow> Note list \<Rightarrow> event list \<times> bool" where
  "triggerNotes i synth time [] = ([], False)"
| "triggerNotes i synth time (note # rest) =
     (if trigger_throws synth then ([], True)
      else (let (es, threw) = triggerNotes i synth time rest
            in (Triggered i (pitch note) (toneDuration (duration note)) time # es, threw)))"

text \<open>The body of \<^verbatim>\<open>tracks.forEach\<close> in the sequence callback, for one track.\<close>

definition playTrack :: "(string \<times> SynthHandle) list \<Rightarrow> rat \<Rightarrow> int \<Rightarrow> Track \<Rightarrow> event list" where
  "playTrack reg time stp track =
     (if \<not> muted track then
        (let notesToPlay = filter (\<lambda>note. step note = stp) (notes_track track) in
         if length notesToPlay > 0 then
           (case map_of reg (id_track track) of
              None \<Rightarrow> []
            | Some synth \<Rightarrow>
                if \<not> has_trigger synth then [ConsoleWarn (id_track track)]
                else (let (es, threw) = triggerNotes (id_track track) synth time notesToPlay
                      in if threw then es @ [ConsoleError (id_track track)] else es))
         else [])
      else [])"

text \<open>
  The callback of the sequence, \<^verbatim>\<open>(time, step) => { setCurrentStep(step); tracks.forEach(...) }\<close>:
  the tracks are those the sequence was built with, the synths are read from the ref when
  the callback runs.
\<close>

definition sequenceCallback :: "Sequence \<Rightarrow> rat \<Rightarrow> int \<Rightarrow> State \<Rightarrow> State" where
  "sequenceCallback sq time stp st =
     st\<lparr>currentStep := stp,
        events := events st @ concat (map (playTrack (synthsRef st) time stp) (seq_tracks sq))\<rparr>"

text \<open>
  \<open>createSequence\<close>: the old sequence disposed (outside any \<^verbatim>\<open>try\<close> of its own), a new one
  built over \<^verbatim>\<open>[0, ..., totalSteps - 1]\<close> at \<^verbatim>\<open>"8n"\<close> and stored.
\<close>

definition createSequence :: "State \<Rightarrow> error + State" where
  "createSequence st =
     (let fresh = \<lparr>seq_tracks = tracks st, seq_steps = totalSteps st, seq_dispose_throws = False\<rparr> in
      case sequencerRef st of
        None \<Rightarrow> Inr (st\<lparr>sequencerRef := Some fresh\<rparr>)
      | Some old \<Rightarrow>
          if seq_dispose_throws old then Inl ToneError
          else Inr (st\<lparr>sequencerRef := Some fresh, events := events st @ [SequenceDisposeCalled]\<rparr>))"

text \<open>
  \<^verbatim>\<open>Tone.Transport.pause()\<close> pauses a started transport and keeps its position;
  \<^verbatim>\<open>Tone.Transport.start()\<close> sets it running.
\<close>

definition transportPause :: "Transport \<Rightarrow> Transport" where
  "transportPause T = (if t_state T = Started then T\<lparr>t_state := Paused\<rparr> else T)"

definition transportStart :: "Transport \<Rightarrow> Transport" where
  "transportStart T = T\<lparr>t_state := Started\<rparr>"

text \<open>The synths recreated by \<open>togglePlayback\<close> for tracks that have none: always the plain class.\<close>

definition recreateSynth :: "Track \<Rightarrow> (string \<times> SynthHandle) list \<Rightarrow> (string \<times> SynthHandle) list" where
  "recreateSynth track reg =
     (case map_of reg (id_track track) of
        Some s \<Rightarrow> reg
      | None \<Rightarrow> AList.update (id_track track) ((newPolySynth Synth)\<lparr>volume_value := volume track\<rparr>) reg)"

text \<open>
  \<open>togglePlayback\<close>. \<open>startOk\<close> says whether \<^verbatim>\<open>await Tone.start()\<close> resolves; every throw
  inside is caught by the handler's own \<^verbatim>\<open>catch\<close> and logged.
\<close>

definition togglePlayback :: "bool \<Rightarrow> State \<Rightarrow> State" where
  "togglePlayback startOk st =
     (if \<not> contextRunning st \<and> \<not> startOk then
        st\<lparr>events := events st @ [ConsoleError ''Error toggling playback'']\<rparr>
      else
        let st0 = st\<lparr>contextRunning := True\<rparr> in
        if isPlaying st0 then
          st0\<lparr>transport := transportPause (transport st0), isPlaying := False\<rparr>
        else
          let st1 = st0\<lparr>synthsRef := fold recreateSynth (tracks st0) (synthsRef st0)\<rparr> in
          case createSequence st1 of
            Inl e \<Rightarrow> st1\<lparr>events := events st1 @ [ConsoleError ''Error toggling playback'']\<rparr>
          | Inr st2 \<Rightarrow>
              st2\<lparr>transport :=
                    transportStart
                      ((transport st2)\<lparr>loopStart := 0, loopEnd := totalSteps st2, loop := True,
                                       position := 0\<rparr>),
                  isPlaying := True\<rparr>)"

definition resetPlayback :: "State \<Rightarrow> State" where
  "resetPlayback st =
     (let st1 = st\<lparr>currentStep := 0\<rparr> in
      if t_state (transport st1) \<noteq> Stopped
      then st1\<lparr>transport := (transport st1)\<lparr>position := 0\<rparr>\<rparr>
      else st1)"

text \<open>
  One tick of the transport clock, as Tone.js drives the sequence: a started transport
  calls the callback of the live sequence with the step at its position and moves on by
  one step, back to \<open>loopStart\<close> at \<open>loopEnd\<close> when looping; a paused or stopped transport
  emits nothing and stays where it is.
\<close>

definition transportTick :: "rat \<Rightarrow> State \<Rightarrow> State" where
  "transportTick time st =
     (if t_state (transport st) = Started then
        (let p = position (transport st);
             st1 = (case sequencerRef st of
                      None \<Rightarrow> st
                    | Some sq \<Rightarrow> sequenceCallback sq time (int p) st);
             p' = (if loop (transport st) \<and> loopEnd (transport st) \<le> p + 1
                   then loopStart (transport st) else p + 1)
         in st1\<lparr>transport := (transport st1)\<lparr>position := p'\<rparr>\<rparr>)
      else st)"

section \<open>Session histories\<close>

text \<open>
  The handlers the interface can call on the track list and the selection, and a session
  as the list of calls made, each on the state the one before left (an error thrown by a
  handler does not undo the state it had set). The initialising effect, which React runs
  again after every change of \<open>tracks\<close>, is not part of a step: it writes the two refs only,
  so a session state has the \<open>tracks\<close> and the \<open>currentTrackId\<close> of the program, and the
  properties of sessions below read nothing else from it.
\<close>

datatype Op =
    AddNote string int string "NoteDuration option"
  | AddTrack
  | RemoveTrack string
  | ClearTrack string
  | UpdateTrackInstrument string string
  | UpdateTrackVolume string int
  | ToggleTrackMute string
  | SetCurrentTrackId string

fun applyOp :: "State \<Rightarrow> Op \<Rightarrow> State" where
  "applyOp st (AddNote i stp ptch d) = addNote i stp ptch d st"
| "applyOp st AddTrack = addTrack st"
| "applyOp st (RemoveTrack i) = snd (removeTrack i st)"
| "applyOp st (ClearTrack i) = clearTrack i st"
| "applyOp st (UpdateTrackInstrument i instr) = updateTrackInstrument i instr st"
| "applyOp st (UpdateTrackVolume i v) = updateTrackVolume i v st"
| "applyOp st (ToggleTrackMute i) = toggleTrackMute i st"
| "applyOp st (SetCurrentTrackId i) = st\<lparr>currentTrackId := i\<rparr>"

definition session :: "Op list \<Rightarrow> State" where
  "session ops = foldl applyOp initialState ops"

section \<open>Pitch utilities (lib/music-utils)\<close>

text \<open>A JavaScript number as far as these functions produce one: an integer or \<open>NaN\<close>.\<close>

datatype number = Num int | NaN

definition noteNames :: "string list" where
  "noteNames = [''C'', ''C#'', ''D'', ''D#'', ''E'', ''F'', ''F#'', ''G'', ''G#'', ''A'', ''A#'', ''B'']"

text \<open>\<open>midiToNoteName\<close>, on the MIDI numbers \<open>0, 1, 2, ...\<close>.\<close>

definition midiToNoteName :: "nat \<Rightarrow> string" where
  "midiToNoteName midi =
     (let octave = int (midi div 12) - 1;
          noteIndex = midi mod 12
      in noteNames ! noteIndex @ toString_int octave)"

text \<open>\<^verbatim>\<open>Array.prototype.indexOf\<close>: the first index of the element, or \<open>-1\<close>.\<close>

fun indexOf_from :: "'a list \<Rightarrow> 'a \<Rightarrow> int \<Rightarrow> int" where
  "indexOf_from [] x i = - 1"
| "indexOf_from (y # ys) x i = (if y = x then i else indexOf_from ys x (i + 1))"

definition indexOf :: "'a list \<Rightarrow> 'a \<Rightarrow> int" where
  "indexOf xs x = indexOf_from xs x 0"

text \<open>
  The regular expression \<^verbatim>\<open>/([A-G])(#|b)?([-0-9]+)/\<close>: \<open>matchHere\<close> matches it at the
  start of a string (a letter, the accidental if the match can go on after it, the longest
  run of \<^verbatim>\<open>[-0-9]\<close>), \<open>matchPitch\<close> is \<^verbatim>\<open>String.prototype.match\<close>, the leftmost match;
  the result is the three groups.
\<close>

definition isNoteLetter :: "char \<Rightarrow> bool" where
  "isNoteLetter c = (c \<in> set ''ABCDEFG'')"

definition isAccidental :: "char \<Rightarrow> bool" where
  "isAccidental c = (c = CHR ''#'' \<or> c = CHR ''b'')"

definition isOctaveChar :: "char \<Rightarrow> bool" where
  "isOctaveChar c = (c \<in> set ''-0123456789'')"

fun matchHere :: "string \<Rightarrow> (char \<times> char option \<times> string) option" where
  "matchHere [] = None"
| "matchHere (c # rest) =
     (if isNoteLetter c then
        (case rest of
           [] \<Rightarrow> None
         | a # rest' \<Rightarrow>
             if isAccidental a \<and> takeWhile isOctaveChar rest' \<noteq> []
             then Some (c, Some a, takeWhile isOctaveChar rest')
             else if takeWhile isOctaveChar rest \<noteq> []
             then Some (c, None, takeWhile isOctaveChar rest)
             else None)
      else None)"

fun matchPitch :: "string \<Rightarrow> (char \<times> char option \<times> string) option" where
  "matchPitch [] = None"
| "matchPitch (c # rest) =
     (case matchHere (c # rest) of
        Some groups \<Rightarrow> Some groups
      | None \<Rightarrow> matchPitch rest)"

text \<open>
  \<^verbatim>\<open>Number.parseInt\<close> on a string of \<^verbatim>\<open>[-0-9]\<close> characters: an optional sign, the longest
  run of digits, \<open>NaN\<close> when there is no digit. (Leading white space and a \<^verbatim>\<open>0x\<close> prefix
  cannot occur in the third group of the expression.)
\<close>

definition isDigit :: "char \<Rightarrow> bool" where
  "isDigit c = (c \<in> set ''0123456789'')"

definition digit_val :: "char \<Rightarrow> int" where
  "digit_val c = indexOf ''0123456789'' c"

definition parseInt :: "string \<Rightarrow> number" where
  "parseInt s =
     (let negative = (case s of c # _ \<Rightarrow> c = CHR ''-'' | [] \<Rightarrow> False);
          body = (case s of c # r \<Rightarrow> if c = CHR ''-'' \<or> c = CHR ''+'' then r else s | [] \<Rightarrow> s);
          ds = takeWhile isDigit body
      in if ds = [] then NaN
         else (let v = foldl (\<lambda>acc c. 10 * acc + digit_val c) 0 ds
               in Num (if negative then - v else v)))"

text \<open>\<open>noteNameToMidi\<close>; \<^verbatim>\<open>(NaN + 1) * 12 + noteIndex\<close> is \<open>NaN\<close>.\<close>

definition noteNameToMidi :: "string \<Rightarrow> number" where
  "noteNameToMidi noteName =
     (case matchPitch noteName of
        None \<Rightarrow> Num 60
      | Some (note, accidental, octave) \<Rightarrow>
          (let noteIndex = indexOf noteNames [note];
               noteIndex1 = (if accidental = Some CHR ''#'' then noteIndex + 1 else noteIndex);
               noteIndex2 = (if accidental = Some CHR ''b'' then noteIndex1 - 1 else noteIndex1)
           in case parseInt octave of
                NaN \<Rightarrow> NaN
              | Num k \<Rightarrow> Num ((k + 1) * 12 + noteIndex2)))"

text \<open>
  A string matches the pattern when it has a substring made of one letter \<open>A\<close> to \<open>G\<close>, at most
  one of \<open>#\<close> and \<open>b\<close>, and at least one character of \<^verbatim>\<open>[-0-9]\<close>: the language of the
  regular expression, stated without reference to how a match is searched.
\<close>

definition matchesPitchPattern :: "string \<Rightarrow> bool" where
  "matchesPitchPattern s =
     (\<exists>pre c acc oct post.
        s = pre @ c # acc @ oct @ post \<and> isNoteLetter c \<and>
        (acc = [] \<or> acc = ''#'' \<or> acc = ''b'') \<and> oct \<noteq> [] \<and> (\<forall>x \<in> set oct. isOctaveChar x))"

section \<open>Vocabulary of the properties\<close>

text \<open>The identity of a note within a track, and a track without two notes of one identity.\<close>

definition noteKey :: "Note \<Rightarrow> int \<times> string" where
  "noteKey n = (step n, pitch n)"

definition noDuplicateNotes :: "Track \<Rightarrow> bool" where
  "noDuplicateNotes t = distinct (map noteKey (notes_track t))"

text \<open>The track an id resolves to: \<^verbatim>\<open>tracks.find(t => t.id === i)\<close>.\<close>

definition firstWithId :: "string \<Rightarrow> Track list \<Rightarrow> Track option" where
  "firstWithId i ts = find (\<lambda>u. id_track u = i) ts"

text \<open>
  The invariant behind the absence of duplicates. Two tracks may carry one id (see
  \<open>addTrack\<close>), and \<open>addNote\<close> decides between insertion and removal on the first of them
  alone: so every track holds no more note identities than the first track of its id.
\<close>

definition notesInv :: "Track list \<Rightarrow> bool" where
  "notesInv ts =
     (\<forall>t \<in> set ts. noDuplicateNotes t \<and>
        (\<forall>f. firstWithId (id_track t) ts = Some f \<longrightarrow>
             noteKey ` set (notes_track t) \<subseteq> noteKey ` set (notes_track f)))"

text \<open>
  The notes of the track an id resolves to, as a set (the order of \<^verbatim>\<open>track.notes\<close> carries no
  meaning), and what \<open>addNote\<close> does to the notes of a track of that id.
\<close>

definition noteSetOf :: "string \<Rightarrow> State \<Rightarrow> Note set option" where
  "noteSetOf i st = map_option (\<lambda>t. set (notes_track t)) (firstWithId i (tracks st))"

definition toggleNotes :: "int \<Rightarrow> string \<Rightarrow> NoteDuration \<Rightarrow> Note list \<Rightarrow> Note list" where
  "toggleNotes s p dur ns =
     (if list_ex (\<lambda>note. step note = s \<and> pitch note = p) ns
      then filter (\<lambda>note. \<not> (step note = s \<and> pitch note = p)) ns
      else ns @ [\<lparr>step = s, pitch = p, duration = Some dur\<rparr>])"

text \<open>
  The state \<open>Playing\<close> at step \<open>k\<close>: the handler has started the transport over the loop
  \<open>[0, totalSteps)\<close>, a sequence is live, and the transport stands at \<open>k\<close>.
\<close>

definition playingAt :: "nat \<Rightarrow> State \<Rightarrow> bool" where
  "playingAt k st =
     (isPlaying st \<and> contextRunning st \<and> t_state (transport st) = Started \<and>
      loop (transport st) \<and> loopStart (transport st) = 0 \<and>
      loopEnd (transport st) = totalSteps st \<and> position (transport st) = k \<and>
      (\<exists>q. sequencerRef st = Some q \<and> \<not> seq_dispose_throws q))"


text \<open>Concrete sessions and states used below.\<close>

definition reissuedIdSession :: State where
  "reissuedIdSession = session [AddTrack, RemoveTrack ''1'', AddTrack]"

definition throwingSynth :: SynthHandle where
  "throwingSynth = (newPolySynth Synth)\<lparr>dispose_throws := True\<rparr>"

definition throwingDisposeState :: State where
  "throwingDisposeState =
     initialState\<lparr>tracks := [initialTrack, initialTrack\<lparr>id_track := ''2''\<rparr>],
                  synthsRef := [(''1'', throwingSynth), (''2'', newPolySynth Synth)]\<rparr>"


definition halfNoteState :: State where
  "halfNoteState = session [AddNote ''1'' 0 ''C4'' (Some Half)]"

definition halfNoteTrack :: Track where
  "halfNoteTrack =
     \<lparr>id_track = ''1'', instrument = ''piano'',
      notes_track = [\<lparr>step = 0, pitch = ''C4'', duration = Some Half\<rparr>], volume = 0, muted = False\<rparr>"

definition playingAtFive :: State where
  "playingAtFive = (transportTick 0 ^^ 5) (togglePlayback True initialState)"

definition quarterNoteTrack :: Track where
  "quarterNoteTrack =
     \<lparr>id_track = ''1'', instrument = ''piano'',
      notes_track = [\<lparr>step = 0, pitch = ''C4'', duration = Some Quarter\<rparr>], volume = 0, muted = False\<rparr>"

section \<open>addTrack\<close>

lemma addTrack_appends:
  "tracks (addTrack st) =
     tracks st @ [\<lparr>id_track = toString_nat (length (tracks st) + 1), instrument = ''piano'',
                   notes_track = [], volume = 0, muted = False\<rparr>]
   \<and> currentTrackId (addTrack st) = toString_nat (length (tracks st) + 1)"
  by (simp add: addTrack_def Let_def)

lemma addTrack_scenario_A:
  "map id_track (tracks (addTrack initialState)) = [''1'', ''2'']
   \<and> currentTrackId (addTrack initialState) = ''2''"
  by code_simp

text \<open>
  Claim C1: every \<open>addTrack\<close> issues an id that differs from every id issued before in the
  session. The id is the decimal of the track count plus one, so it is issued again once a
  track has been removed: after add, remove \<open>"1"\<close>, add, both tracks of the list carry the
  id \<open>"2"\<close>, and \<open>"2"\<close> is the selected id.
\<close>

theorem addTrack_reissues_id:
  "map id_track (tracks reissuedIdSession) = [''2'', ''2'']
   \<and> currentTrackId reissuedIdSession = ''2''
   \<and> \<not> distinct (map id_track (tracks reissuedIdSession))"
  by code_simp

section \<open>removeTrack\<close>

lemma tracks_disposeSynthOf: "tracks (disposeSynthOf i st) = tracks st"
  by (simp add: disposeSynthOf_def split: option.splits)

lemma tracks_removeTrack:
  "tracks (snd (removeTrack i st)) =
     (if length (tracks st) \<le> 1 then tracks st
      else filter (\<lambda>track. id_track track \<noteq> i) (tracks st))"
  by (cases "filter (\<lambda>track. id_track track \<noteq> i) (tracks st)")
     (simp_all add: removeTrack_def Let_def tracks_disposeSynthOf)

lemma removeTrack_last_refused:
  "length (tracks st) \<le> 1 \<Longrightarrow> removeTrack i st = (None, st)"
  by (simp add: removeTrack_def)

text \<open>
  On a list of pairwise distinct ids with a live selection, \<open>removeTrack\<close> removes at most
  the one track of the id, throws nothing and leaves the selection on a live track; a
  healthy synth of the id is released, disposed and unregistered.
\<close>

lemma filter_other_ids_length:
  "distinct (map id_track ts) \<Longrightarrow> length ts \<le> Suc (length (filter (\<lambda>t. id_track t \<noteq> i) ts))"
proof (induction ts)
  case Nil
  then show ?case by simp
next
  case (Cons t ts)
  show ?case
  proof (cases "id_track t = i")
    case True
    with Cons.prems have "i \<notin> id_track ` set ts" by simp
    then have "\<forall>u \<in> set ts. id_track u \<noteq> i" by blast
    then have "filter (\<lambda>t. id_track t \<noteq> i) ts = ts" by (simp add: filter_id_conv)
    with True show ?thesis by simp
  next
    case False
    with Cons show ?thesis by simp
  qed
qed

lemma currentTrackId_disposeSynthOf: "currentTrackId (disposeSynthOf i st) = currentTrackId st"
  by (simp add: disposeSynthOf_def split: option.splits)

lemma removeTrack_distinct_ids:
  assumes d: "distinct (map id_track (tracks st))" and two: "1 < length (tracks st)"
    and live: "currentTrackId st \<in> id_track ` set (tracks st)"
  shows "fst (removeTrack i st) = None
         \<and> tracks (snd (removeTrack i st)) = filter (\<lambda>t. id_track t \<noteq> i) (tracks st)
         \<and> length (tracks (snd (removeTrack i st))) = length (tracks st) - (if i \<in> id_track ` set (tracks st) then 1 else 0)
         \<and> currentTrackId (snd (removeTrack i st)) \<in> id_track ` set (tracks (snd (removeTrack i st)))"
proof -
  let ?rest = "filter (\<lambda>t. id_track t \<noteq> i) (tracks st)"
  from filter_other_ids_length [OF d, of i] two have "?rest \<noteq> []" by auto
  then obtain t r where rest: "?rest = t # r" by (cases ?rest) auto
  then have tin: "t \<in> set ?rest" by simp
  have len: "length ?rest = length (tracks st) - (if i \<in> id_track ` set (tracks st) then 1 else 0)"
  proof (cases "i \<in> id_track ` set (tracks st)")
    case True
    then have "length ?rest < length (tracks st)"
      by (auto intro!: length_filter_less)
    with filter_other_ids_length [OF d, of i] True show ?thesis by simp
  next
    case False
    then have "?rest = tracks st" by (auto simp: filter_id_conv)
    with False show ?thesis by simp
  qed
  show ?thesis
  proof (cases "currentTrackId st = i")
    case True
    with two rest have "removeTrack i st =
        (None, (disposeSynthOf i st)\<lparr>tracks := ?rest, currentTrackId := id_track t\<rparr>)"
      by (simp add: removeTrack_def Let_def)
    with tin len show ?thesis by simp
  next
    case False
    with two have r: "removeTrack i st = (None, (disposeSynthOf i st)\<lparr>tracks := ?rest\<rparr>)"
      by (simp add: removeTrack_def Let_def)
    from live False have "currentTrackId st \<in> id_track ` set ?rest" by auto
    with r len show ?thesis by (simp add: currentTrackId_disposeSynthOf)
  qed
qed

lemma removeTrack_releases_voice:
  assumes "1 < length (tracks st)" and "map_of (synthsRef st) i = Some s"
    and "\<not> releaseAll_throws s" "has_dispose s" "\<not> dispose_throws s"
  shows "map_of (synthsRef (snd (removeTrack i st))) i = None
         \<and> events (snd (removeTrack i st)) = events st @ [ReleaseAllCalled i, DisposeCalled i]"
  using assms
  by (cases "filter (\<lambda>track. id_track track \<noteq> i) (tracks st)")
     (simp_all add: removeTrack_def Let_def disposeSynthOf_def delete_conv')


text \<open>
  Claim C5: \<open>removeTrack\<close> removes the track and, when it was the selected one, selects a
  remaining track, so that the selection always refers to a live track. On the two-track
  list of the session above, where both tracks carry the id \<open>"2"\<close>, the guard on the
  length passes, the filter removes both tracks, and reading the id of the first remaining
  track throws: the list is left empty and the selection \<open>"2"\<close> refers to no track.
\<close>

theorem removeTrack_empties_list:
  "length (tracks reissuedIdSession) = 2
   \<and> fst (removeTrack ''2'' reissuedIdSession) = Some TypeError
   \<and> tracks (snd (removeTrack ''2'' reissuedIdSession)) = []
   \<and> currentTrackId (snd (removeTrack ''2'' reissuedIdSession)) = ''2''"
  by code_simp

section \<open>No duplicate notes\<close>

lemma firstWithId_map:
  assumes "\<And>t. id_track (g t) = id_track t"
  shows "firstWithId j (map g ts) = map_option g (firstWithId j ts)"
  unfolding firstWithId_def by (induction ts) (auto simp: assms)

lemma firstWithId_append:
  "t \<in> set ts \<Longrightarrow> firstWithId (id_track t) (ts @ xs) = firstWithId (id_track t) ts"
  unfolding firstWithId_def by (induction ts) auto

lemma firstWithId_filter:
  "j \<noteq> i \<Longrightarrow> firstWithId j (filter (\<lambda>t. id_track t \<noteq> i) ts) = firstWithId j ts"
  unfolding firstWithId_def by (induction ts) auto

lemma firstWithId_Some:
  "firstWithId j ts = Some f \<Longrightarrow> f \<in> set ts \<and> id_track f = j"
  unfolding firstWithId_def by (induction ts) (auto split: if_splits)

text \<open>
  A rewriting of every track that keeps the ids keeps the invariant, when it keeps each
  track free of duplicates and is monotone in the note identities.
\<close>

lemma notesInv_map:
  assumes inv: "notesInv ts"
    and idg: "\<And>t. id_track (g t) = id_track t"
    and dist: "\<And>t. t \<in> set ts \<Longrightarrow> noDuplicateNotes t \<Longrightarrow> noDuplicateNotes (g t)"
    and sub: "\<And>t f. t \<in> set ts \<Longrightarrow> firstWithId (id_track t) ts = Some f \<Longrightarrow>
               noteKey ` set (notes_track t) \<subseteq> noteKey ` set (notes_track f) \<Longrightarrow>
               noteKey ` set (notes_track (g t)) \<subseteq> noteKey ` set (notes_track (g f))"
  shows "notesInv (map g ts)"
  unfolding notesInv_def
proof (intro ballI conjI allI impI)
  fix t' assume "t' \<in> set (map g ts)"
  then obtain t where t: "t \<in> set ts" "t' = g t" by auto
  from inv t(1) have nd: "noDuplicateNotes t" by (simp add: notesInv_def)
  show "noDuplicateNotes t'" using dist [OF t(1) nd] t(2) by simp
  fix f' assume "firstWithId (id_track t') (map g ts) = Some f'"
  then have "map_option g (firstWithId (id_track t) ts) = Some f'"
    by (simp add: firstWithId_map [OF idg] t(2) idg)
  then obtain f where f: "firstWithId (id_track t) ts = Some f" "f' = g f" by auto
  from inv t(1) f(1) have "noteKey ` set (notes_track t) \<subseteq> noteKey ` set (notes_track f)"
    by (simp add: notesInv_def)
  from sub [OF t(1) f(1) this] show "noteKey ` set (notes_track t') \<subseteq> noteKey ` set (notes_track f')"
    by (simp add: t(2) f(2))
qed

lemma notesInv_same_notes:
  assumes "notesInv ts" "\<And>t. id_track (g t) = id_track t" "\<And>t. notes_track (g t) = notes_track t"
  shows "notesInv (map g ts)"
  using assms(1,2) by (rule notesInv_map) (simp_all add: assms(3) noDuplicateNotes_def)

lemma notesInv_append_empty:
  assumes "notesInv ts" "notes_track new = []"
  shows "notesInv (ts @ [new])"
  unfolding notesInv_def
proof (intro ballI conjI allI impI)
  fix t assume t: "t \<in> set (ts @ [new])"
  show "noDuplicateNotes t" using t assms by (auto simp: notesInv_def noDuplicateNotes_def)
  fix f assume f: "firstWithId (id_track t) (ts @ [new]) = Some f"
  show "noteKey ` set (notes_track t) \<subseteq> noteKey ` set (notes_track f)"
  proof (cases "t \<in> set ts")
    case True
    with f have "firstWithId (id_track t) ts = Some f" by (simp add: firstWithId_append)
    with True assms(1) show ?thesis by (simp add: notesInv_def)
  next
    case False
    with t have "t = new" by simp
    with assms(2) show ?thesis by simp
  qed
qed

lemma notesInv_filter:
  assumes "notesInv ts"
  shows "notesInv (filter (\<lambda>t. id_track t \<noteq> i) ts)"
  unfolding notesInv_def
proof (intro ballI conjI allI impI)
  fix t assume t: "t \<in> set (filter (\<lambda>t. id_track t \<noteq> i) ts)"
  then have mem: "t \<in> set ts" and ne: "id_track t \<noteq> i" by auto
  show "noDuplicateNotes t" using mem assms by (simp add: notesInv_def)
  fix f assume "firstWithId (id_track t) (filter (\<lambda>t. id_track t \<noteq> i) ts) = Some f"
  with ne have "firstWithId (id_track t) ts = Some f" by (simp add: firstWithId_filter)
  with mem assms show "noteKey ` set (notes_track t) \<subseteq> noteKey ` set (notes_track f)"
    by (simp add: notesInv_def)
qed

lemma keys_filter:
  "noteKey ` set (filter (\<lambda>note. \<not> (step note = s \<and> pitch note = p)) ns) = noteKey ` set ns - {(s, p)}"
  by (auto simp: noteKey_def)

lemma keys_filter_mono:
  assumes "noteKey ` set a \<subseteq> noteKey ` set b"
  shows "noteKey ` set (filter (\<lambda>note. \<not> (step note = s \<and> pitch note = p)) a)
         \<subseteq> noteKey ` set (filter (\<lambda>note. \<not> (step note = s \<and> pitch note = p)) b)"
  unfolding keys_filter using assms by (rule Diff_mono) simp

lemma list_ex_key:
  "list_ex (\<lambda>note. step note = s \<and> pitch note = p) ns \<longleftrightarrow> (s, p) \<in> noteKey ` set ns"
  by (auto simp: list_ex_iff noteKey_def)

lemma notesInv_addNote:
  assumes "notesInv (tracks st)"
  shows "notesInv (tracks (addNote i s p d st))"
proof (cases "firstWithId i (tracks st)")
  case None
  then show ?thesis using assms by (simp add: addNote_def firstWithId_def)
next
  case (Some track)
  show ?thesis
  proof (cases "(s, p) \<in> noteKey ` set (notes_track track)")
    case True
    let ?g = "\<lambda>t. if id_track t = i
                then t\<lparr>notes_track := filter (\<lambda>note. \<not> (step note = s \<and> pitch note = p)) (notes_track t)\<rparr>
                else t"
    have "notesInv (map ?g (tracks st))"
      using assms
    proof (rule notesInv_map)
      show "\<And>t. id_track (?g t) = id_track t" by simp
      show "\<And>t. noDuplicateNotes t \<Longrightarrow> noDuplicateNotes (?g t)"
        by (simp add: noDuplicateNotes_def distinct_map_filter)
      fix t f
      assume "firstWithId (id_track t) (tracks st) = Some f"
        and sub: "noteKey ` set (notes_track t) \<subseteq> noteKey ` set (notes_track f)"
      then have idf: "id_track f = id_track t" by (simp add: firstWithId_Some)
      show "noteKey ` set (notes_track (?g t)) \<subseteq> noteKey ` set (notes_track (?g f))"
        using keys_filter_mono [OF sub, of s p] sub idf by simp
    qed
    with Some True show ?thesis
      by (simp add: addNote_def firstWithId_def [symmetric] list_ex_key del: image_iff)
  next
    case False
    define n where "n = \<lparr>step = s, pitch = p,
       duration = Some (case d of None \<Rightarrow> activeDuration st | Some x \<Rightarrow> x)\<rparr>"
    let ?g = "\<lambda>t. if id_track t = i then t\<lparr>notes_track := notes_track t @ [n]\<rparr> else t"
    have kn: "noteKey n = (s, p)" by (simp add: n_def noteKey_def)
    have "notesInv (map ?g (tracks st))"
      using assms
    proof (rule notesInv_map)
      show "\<And>t. id_track (?g t) = id_track t" by simp
      fix t assume t: "t \<in> set (tracks st)" and nd: "noDuplicateNotes t"
      show "noDuplicateNotes (?g t)"
      proof (cases "id_track t = i")
        case True
        with Some t assms have "noteKey ` set (notes_track t) \<subseteq> noteKey ` set (notes_track track)"
          by (simp add: notesInv_def)
        with False have "(s, p) \<notin> noteKey ` set (notes_track t)" by blast
        with nd True show ?thesis by (simp add: noDuplicateNotes_def kn)
      next
        case False
        with nd show ?thesis by simp
      qed
    next
      fix t f
      assume "firstWithId (id_track t) (tracks st) = Some f"
        and sub: "noteKey ` set (notes_track t) \<subseteq> noteKey ` set (notes_track f)"
      then have "id_track f = id_track t" by (simp add: firstWithId_Some)
      with sub show "noteKey ` set (notes_track (?g t)) \<subseteq> noteKey ` set (notes_track (?g f))"
        by auto
    qed
    with Some False show ?thesis
      unfolding n_def
      by (simp add: addNote_def firstWithId_def [symmetric] list_ex_key del: image_iff)
  qed
qed

lemma notesInv_removeTrack:
  assumes "notesInv (tracks st)"
  shows "notesInv (tracks (snd (removeTrack i st)))"
  using assms notesInv_filter [OF assms, of i]
  by (simp add: tracks_removeTrack)

lemma notesInv_addTrack:
  "notesInv (tracks st) \<Longrightarrow> notesInv (tracks (addTrack st))"
  by (simp add: addTrack_def Let_def notesInv_append_empty)

lemma notesInv_clearTrack:
  assumes "notesInv (tracks st)"
  shows "notesInv (tracks (clearTrack i st))"
proof -
  let ?g = "\<lambda>track. if id_track track = i then track\<lparr>notes_track := []\<rparr> else track"
  have "notesInv (map ?g (tracks st))"
    using assms
  proof (rule notesInv_map)
    show "\<And>t. id_track (?g t) = id_track t" by simp
    show "\<And>t. noDuplicateNotes t \<Longrightarrow> noDuplicateNotes (?g t)" by (simp add: noDuplicateNotes_def)
    fix t f
    assume "firstWithId (id_track t) (tracks st) = Some f"
      and sub: "noteKey ` set (notes_track t) \<subseteq> noteKey ` set (notes_track f)"
    then have "id_track f = id_track t" by (simp add: firstWithId_Some)
    with sub show "noteKey ` set (notes_track (?g t)) \<subseteq> noteKey ` set (notes_track (?g f))"
      by auto
  qed
  then show ?thesis by (simp add: clearTrack_def)
qed

lemma notesInv_updateTrackInstrument:
  "notesInv (tracks st) \<Longrightarrow> notesInv (tracks (updateTrackInstrument i instr st))"
  by (simp add: updateTrackInstrument_def Let_def notesInv_same_notes)

lemma notesInv_updateTrackVolume:
  "notesInv (tracks st) \<Longrightarrow> notesInv (tracks (updateTrackVolume i v st))"
  by (simp add: updateTrackVolume_def notesInv_same_notes)

lemma notesInv_toggleTrackMute:
  "notesInv (tracks st) \<Longrightarrow> notesInv (tracks (toggleTrackMute i st))"
  by (simp add: toggleTrackMute_def notesInv_same_notes)

lemma notesInv_applyOp:
  "notesInv (tracks st) \<Longrightarrow> notesInv (tracks (applyOp st op))"
  by (cases op)
     (simp_all add: notesInv_addNote notesInv_addTrack notesInv_removeTrack notesInv_clearTrack
        notesInv_updateTrackInstrument notesInv_updateTrackVolume notesInv_toggleTrackMute)

lemma notesInv_initial: "notesInv (tracks initialState)"
  by (simp add: initialState_def initialTrack_def notesInv_def noDuplicateNotes_def)

lemma notesInv_session: "notesInv (tracks (session ops))"
  unfolding session_def
  by (induction ops rule: rev_induct) (simp_all add: notesInv_initial notesInv_applyOp)

text \<open>
  Claim C4: in every state reached from the initial one-track state by the handlers
  (\<open>addNote\<close>, \<open>addTrack\<close>, \<open>removeTrack\<close>, \<open>clearTrack\<close>, instrument, volume and mute changes,
  selection), no track holds two notes with the same step and pitch.
\<close>

theorem no_duplicate_notes:
  "\<forall>t \<in> set (tracks (session ops)). noDuplicateNotes t"
  using notesInv_session [of ops] by (simp add: notesInv_def)

theorem no_duplicate_notes_witness:
  "tracks (session [AddNote ''1'' 0 ''C4'' None, AddNote ''1'' 4 ''E4'' (Some Half),
                    AddNote ''1'' 0 ''C4'' (Some Whole), ToggleTrackMute ''1''])
     = [\<lparr>id_track = ''1'', instrument = ''piano'',
         notes_track = [\<lparr>step = 4, pitch = ''E4'', duration = Some Half\<rparr>],
         volume = 0, muted = True\<rparr>]
   \<and> noDuplicateNotes
       \<lparr>id_track = ''1'', instrument = ''piano'',
        notes_track = [\<lparr>step = 4, pitch = ''E4'', duration = Some Half\<rparr>],
        volume = 0, muted = True\<rparr>"
proof -
  have run: "tracks (session [AddNote ''1'' 0 ''C4'' None, AddNote ''1'' 4 ''E4'' (Some Half),
                    AddNote ''1'' 0 ''C4'' (Some Whole), ToggleTrackMute ''1''])
     = [\<lparr>id_track = ''1'', instrument = ''piano'',
         notes_track = [\<lparr>step = 4, pitch = ''E4'', duration = Some Half\<rparr>],
         volume = 0, muted = True\<rparr>]"
    by code_simp
  from no_duplicate_notes [of "[AddNote ''1'' 0 ''C4'' None, AddNote ''1'' 4 ''E4'' (Some Half),
                    AddNote ''1'' 0 ''C4'' (Some Whole), ToggleTrackMute ''1'']"] run
  show ?thesis by simp
qed

section \<open>Teardown\<close>

text \<open>
  The second cleanup calls \<open>dispose\<close> on every synth that has one, whatever the others do,
  and clears both refs.
\<close>

lemma unmountCleanup_exhaustive:
  "synthsRef (unmountCleanup st) = [] \<and> sequencerRef (unmountCleanup st) = None
   \<and> ((k, s) \<in> set (synthsRef st) \<and> has_dispose s
        \<longrightarrow> DisposeCalled k \<in> set (events (unmountCleanup st)))
   \<and> (sequencerRef st \<noteq> None \<longrightarrow> SequenceDisposeCalled \<in> set (events (unmountCleanup st)))"
  by (force simp: unmountCleanup_def Let_def guardedDispose_def split: option.splits)

lemma removeTrack_survives_dispose_error:
  "1 < length (tracks st) \<Longrightarrow>
   tracks (snd (removeTrack i st)) = filter (\<lambda>track. id_track track \<noteq> i) (tracks st)"
  by (simp add: tracks_removeTrack)

text \<open>
  Claim C9: a \<open>dispose\<close> that throws during teardown is caught and logged locally, and the
  teardown still disposes every remaining synth and the sequencer and clears the
  registries. The cleanup of the second effect does so; the cleanup of the initialising
  effect, which runs at the same unmount (and before every re-run of the effect), calls
  \<open>dispose\<close> with no \<^verbatim>\<open>try\<close>: with the synth of track \<open>"1"\<close> throwing, the error leaves the
  cleanup, the synth of track \<open>"2"\<close> is never reached and the registry is not cleared.
\<close>

theorem effectCleanup_propagates:
  "fst (effectCleanup throwingDisposeState) = Some ToneError
   \<and> events (snd (effectCleanup throwingDisposeState)) = [DisposeCalled ''1'']
   \<and> map fst (synthsRef (snd (effectCleanup throwingDisposeState))) = [''1'', ''2'']"
  by code_simp

section \<open>The note toggle\<close>

lemma activeDuration_addNote: "activeDuration (addNote i s p d st) = activeDuration st"
  by (simp add: addNote_def Let_def split: option.splits)

lemma addNote_first:
  assumes "firstWithId i (tracks st) = Some t"
  shows "firstWithId i (tracks (addNote i s p d st)) =
           Some (t\<lparr>notes_track :=
                    toggleNotes s p (case d of None \<Rightarrow> activeDuration st | Some x \<Rightarrow> x) (notes_track t)\<rparr>)"
proof -
  have idt: "id_track t = i" using assms by (simp add: firstWithId_Some)
  show ?thesis
  proof (cases "list_ex (\<lambda>note. step note = s \<and> pitch note = p) (notes_track t)")
    case True
    let ?g = "\<lambda>t. if id_track t = i
                then t\<lparr>notes_track := filter (\<lambda>note. \<not> (step note = s \<and> pitch note = p)) (notes_track t)\<rparr>
                else t"
    have "firstWithId i (map ?g (tracks st)) = map_option ?g (firstWithId i (tracks st))"
      by (rule firstWithId_map) simp
    with assms True idt show ?thesis
      by (simp add: addNote_def toggleNotes_def firstWithId_def [symmetric])
  next
    case False
    define n where "n = \<lparr>step = s, pitch = p,
       duration = Some (case d of None \<Rightarrow> activeDuration st | Some x \<Rightarrow> x)\<rparr>"
    let ?g = "\<lambda>t. if id_track t = i then t\<lparr>notes_track := notes_track t @ [n]\<rparr> else t"
    have "firstWithId i (map ?g (tracks st)) = map_option ?g (firstWithId i (tracks st))"
      by (rule firstWithId_map) simp
    with assms False idt show ?thesis
      unfolding n_def
      by (simp add: addNote_def toggleNotes_def firstWithId_def [symmetric])
  qed
qed

lemma toggleNotes_twice:
  assumes "\<forall>n \<in> set ns. step n = s \<and> pitch n = p \<longrightarrow> duration n = Some dur"
  shows "set (toggleNotes s p dur (toggleNotes s p dur ns)) = set ns"
proof (cases "list_ex (\<lambda>note. step note = s \<and> pitch note = p) ns")
  case True
  then obtain m where m: "m \<in> set ns" "step m = s" "pitch m = p" by (auto simp: list_ex_iff)
  with assms have "duration m = Some dur" by blast
  with m have meq: "m = \<lparr>step = s, pitch = p, duration = Some dur\<rparr>" by simp
  have none: "\<not> list_ex (\<lambda>note. step note = s \<and> pitch note = p)
                 (filter (\<lambda>note. \<not> (step note = s \<and> pitch note = p)) ns)"
    by (auto simp: list_ex_iff)
  have "set (toggleNotes s p dur (toggleNotes s p dur ns)) =
        {x \<in> set ns. \<not> (step x = s \<and> pitch x = p)} \<union> {\<lparr>step = s, pitch = p, duration = Some dur\<rparr>}"
    using True none by (simp add: toggleNotes_def)
  also have "\<dots> = set ns"
  proof (intro equalityI subsetI)
    fix x assume "x \<in> {x \<in> set ns. \<not> (step x = s \<and> pitch x = p)} \<union> {\<lparr>step = s, pitch = p, duration = Some dur\<rparr>}"
    with m(1) meq show "x \<in> set ns" by auto
  next
    fix x assume x: "x \<in> set ns"
    show "x \<in> {x \<in> set ns. \<not> (step x = s \<and> pitch x = p)} \<union> {\<lparr>step = s, pitch = p, duration = Some dur\<rparr>}"
    proof (cases "step x = s \<and> pitch x = p")
      case True
      with assms x have "duration x = Some dur" by blast
      with True have "x = \<lparr>step = s, pitch = p, duration = Some dur\<rparr>" by simp
      then show ?thesis by simp
    next
      case False
      with x show ?thesis by simp
    qed
  qed
  finally show ?thesis .
next
  case False
  then have "filter (\<lambda>note. \<not> (step note = s \<and> pitch note = p)) ns = ns"
    by (auto simp: list_ex_iff filter_id_conv)
  with False show ?thesis by (simp add: toggleNotes_def)
qed

lemma toggleNotes_twice_replaces:
  assumes "list_ex (\<lambda>note. step note = s \<and> pitch note = p) ns"
  shows "set (toggleNotes s p dur (toggleNotes s p dur ns)) =
           {x \<in> set ns. \<not> (step x = s \<and> pitch x = p)} \<union> {\<lparr>step = s, pitch = p, duration = Some dur\<rparr>}"
proof -
  have none: "\<not> list_ex (\<lambda>note. step note = s \<and> pitch note = p)
                 (filter (\<lambda>note. \<not> (step note = s \<and> pitch note = p)) ns)"
    by (auto simp: list_ex_iff)
  with assms show ?thesis by (simp add: toggleNotes_def)
qed

text \<open>
  Claim C3, as the code has it: when \<open>addNote\<close> finds a track \<open>t\<close> for the id, the first call
  gives it the toggled notes (the note appended when no note has the step and pitch, every
  note with the step and pitch removed otherwise, whatever its duration). A second call
  with the same arguments restores the note set of that track, provided every note of \<open>t\<close>
  with the step and pitch already carries the duration of the call: when \<open>t\<close> has a note
  with the step and pitch, the two calls leave the other notes and one new note with the
  duration passed, appended at the end.
\<close>

theorem addNote_twice_restores:
  assumes found: "firstWithId i (tracks st) = Some t"
  shows "firstWithId i (tracks (addNote i s p d st)) =
           Some (t\<lparr>notes_track :=
                    toggleNotes s p (case d of None \<Rightarrow> activeDuration st | Some x \<Rightarrow> x) (notes_track t)\<rparr>)
         \<and> ((\<forall>n \<in> set (notes_track t). step n = s \<and> pitch n = p \<longrightarrow>
                 duration n = Some (case d of None \<Rightarrow> activeDuration st | Some x \<Rightarrow> x))
              \<longrightarrow> noteSetOf i (addNote i s p d (addNote i s p d st)) = noteSetOf i st)
         \<and> (list_ex (\<lambda>n. step n = s \<and> pitch n = p) (notes_track t)
              \<longrightarrow> noteSetOf i (addNote i s p d (addNote i s p d st)) =
                    Some ({x \<in> set (notes_track t). \<not> (step x = s \<and> pitch x = p)}
                          \<union> {\<lparr>step = s, pitch = p,
                               duration = Some (case d of None \<Rightarrow> activeDuration st | Some x \<Rightarrow> x)\<rparr>}))"
proof -
  let ?dur = "case d of None \<Rightarrow> activeDuration st | Some x \<Rightarrow> x"
  let ?t1 = "t\<lparr>notes_track := toggleNotes s p ?dur (notes_track t)\<rparr>"
  have one: "firstWithId i (tracks (addNote i s p d st)) = Some ?t1"
    by (rule addNote_first [OF found])
  have two: "firstWithId i (tracks (addNote i s p d (addNote i s p d st))) =
               Some (?t1\<lparr>notes_track := toggleNotes s p ?dur (notes_track ?t1)\<rparr>)"
    using addNote_first [OF one, of s p d] by (cases d) (simp_all add: activeDuration_addNote)
  then have twice: "noteSetOf i (addNote i s p d (addNote i s p d st)) =
                      Some (set (toggleNotes s p ?dur (toggleNotes s p ?dur (notes_track t))))"
    by (simp add: noteSetOf_def)
  have before: "noteSetOf i st = Some (set (notes_track t))"
    using found by (simp add: noteSetOf_def)
  have restore: "noteSetOf i (addNote i s p d (addNote i s p d st)) = noteSetOf i st"
    if "\<forall>n \<in> set (notes_track t). step n = s \<and> pitch n = p \<longrightarrow> duration n = Some ?dur"
    using toggleNotes_twice [OF that] twice before by simp
  have replace: "noteSetOf i (addNote i s p d (addNote i s p d st)) =
                    Some ({x \<in> set (notes_track t). \<not> (step x = s \<and> pitch x = p)}
                          \<union> {\<lparr>step = s, pitch = p, duration = Some ?dur\<rparr>})"
    if "list_ex (\<lambda>n. step n = s \<and> pitch n = p) (notes_track t)"
    using toggleNotes_twice_replaces [OF that, of ?dur] twice by simp
  from one restore replace show ?thesis by blast
qed

theorem addNote_twice_restores_witness:
  "firstWithId ''1'' (tracks halfNoteState) = Some halfNoteTrack
   \<and> firstWithId ''1'' (tracks (addNote ''1'' 0 ''C4'' (Some Half) halfNoteState))
       = Some (halfNoteTrack\<lparr>notes_track := []\<rparr>)
   \<and> noteSetOf ''1'' (addNote ''1'' 0 ''C4'' (Some Half) (addNote ''1'' 0 ''C4'' (Some Half) halfNoteState))
       = noteSetOf ''1'' halfNoteState"
proof -
  have found: "firstWithId ''1'' (tracks halfNoteState) = Some halfNoteTrack"
    by code_simp
  have same: "\<forall>n \<in> set (notes_track halfNoteTrack). step n = 0 \<and> pitch n = ''C4'' \<longrightarrow>
                duration n = Some (case Some Half of None \<Rightarrow> activeDuration halfNoteState | Some x \<Rightarrow> x)"
    by (simp add: halfNoteTrack_def)
  have "toggleNotes 0 ''C4'' Half (notes_track halfNoteTrack) = []"
    by (simp add: toggleNotes_def halfNoteTrack_def)
  with addNote_twice_restores [OF found, of 0 "''C4''" "Some Half"] same found
  show ?thesis by simp
qed

text \<open>
  Claim C3 as stated fails when the note is there with another duration: on a track
  holding a half note at step 0, pitch C4, two calls with the duration \<open>quarter\<close> leave a
  quarter note in its place.
\<close>

theorem addNote_twice_changes_duration:
  "noteSetOf ''1'' halfNoteState = Some {\<lparr>step = 0, pitch = ''C4'', duration = Some Half\<rparr>}
   \<and> noteSetOf ''1'' (addNote ''1'' 0 ''C4'' (Some Quarter)
                        (addNote ''1'' 0 ''C4'' (Some Quarter) halfNoteState))
       = Some {\<lparr>step = 0, pitch = ''C4'', duration = Some Quarter\<rparr>}
   \<and> noteSetOf ''1'' (addNote ''1'' 0 ''C4'' (Some Quarter)
                        (addNote ''1'' 0 ''C4'' (Some Quarter) halfNoteState))
       \<noteq> noteSetOf ''1'' halfNoteState"
  by code_simp

section \<open>Pause and start\<close>

lemma createSequence_ok:
  assumes "sequencerRef st = None \<or> (\<exists>q. sequencerRef st = Some q \<and> \<not> seq_dispose_throws q)"
  shows "\<exists>st2. createSequence st = Inr st2 \<and> transport st2 = transport st
           \<and> totalSteps st2 = totalSteps st \<and> contextRunning st2 = contextRunning st
           \<and> sequencerRef st2 =
               Some \<lparr>seq_tracks = tracks st, seq_steps = totalSteps st, seq_dispose_throws = False\<rparr>"
  using assms by (auto simp: createSequence_def Let_def)

lemma start_playing:
  assumes np: "\<not> isPlaying st" and ctx: "contextRunning st \<or> a"
    and sq: "sequencerRef st = None \<or> (\<exists>q. sequencerRef st = Some q \<and> \<not> seq_dispose_throws q)"
  shows "playingAt 0 (togglePlayback a st) \<and> totalSteps (togglePlayback a st) = totalSteps st
         \<and> sequencerRef (togglePlayback a st) =
               Some \<lparr>seq_tracks = tracks st, seq_steps = totalSteps st, seq_dispose_throws = False\<rparr>"
proof -
  let ?st1 = "st\<lparr>contextRunning := True,
                 synthsRef := fold recreateSynth (tracks st) (synthsRef st)\<rparr>"
  have "sequencerRef ?st1 = None \<or> (\<exists>q. sequencerRef ?st1 = Some q \<and> \<not> seq_dispose_throws q)"
    using sq by simp
  from createSequence_ok [OF this] obtain st2 where st2: "createSequence ?st1 = Inr st2"
    "transport st2 = transport st" "totalSteps st2 = totalSteps st" "contextRunning st2"
    "sequencerRef st2 =
       Some \<lparr>seq_tracks = tracks ?st1, seq_steps = totalSteps ?st1, seq_dispose_throws = False\<rparr>"
    by auto
  have "togglePlayback a st =
          st2\<lparr>transport :=
                 transportStart
                   ((transport st2)\<lparr>loopStart := 0, loopEnd := totalSteps st2, loop := True,
                                    position := 0\<rparr>),
               isPlaying := True\<rparr>"
    using np ctx st2(1) by (auto simp add: togglePlayback_def Let_def)
  with st2 show ?thesis by (simp add: playingAt_def transportStart_def)
qed

lemma pause_playing:
  assumes "playingAt k st"
  shows "togglePlayback a st =
           st\<lparr>transport := (transport st)\<lparr>t_state := Paused\<rparr>, isPlaying := False\<rparr>"
  using assms by (simp add: playingAt_def togglePlayback_def transportPause_def)

lemma tick_playing:
  assumes "playingAt k st" and "k + 1 < totalSteps st"
  shows "playingAt (Suc k) (transportTick time st)
         \<and> totalSteps (transportTick time st) = totalSteps st
         \<and> currentStep (transportTick time st) = int k"
  using assms by (auto simp: playingAt_def transportTick_def Let_def sequenceCallback_def)

lemma ticks_playing:
  assumes "playingAt 0 st" and "n < totalSteps st"
  shows "playingAt n ((transportTick time ^^ n) st)
         \<and> totalSteps ((transportTick time ^^ n) st) = totalSteps st"
  using assms(2)
proof (induction n)
  case 0
  with assms(1) show ?case by simp
next
  case (Suc n)
  then have ih: "playingAt n ((transportTick time ^^ n) st)"
      "totalSteps ((transportTick time ^^ n) st) = totalSteps st"
    by simp_all
  from Suc.prems ih(2) have "n + 1 < totalSteps ((transportTick time ^^ n) st)" by simp
  from tick_playing [OF ih(1) this, of time] ih(2) show ?case by simp
qed

lemma playingAtFive_playing: "playingAt 5 playingAtFive \<and> totalSteps playingAtFive = 16"
proof -
  have s0: "playingAt 0 (togglePlayback True initialState)"
      "totalSteps (togglePlayback True initialState) = 16"
    using start_playing [of initialState True] by (simp_all add: initialState_def)
  from s0(2) have "5 < totalSteps (togglePlayback True initialState)" by simp
  from ticks_playing [OF s0(1) this, of 0] s0(2) show ?thesis by (simp add: playingAtFive_def)
qed

lemma resume_after_pause:
  assumes "playingAt k st"
  shows "position (transport (togglePlayback a st)) = k
         \<and> t_state (transport (togglePlayback a st)) = Paused
         \<and> sequencerRef (togglePlayback a st) = sequencerRef st
         \<and> transportTick time (togglePlayback a st) = togglePlayback a st
         \<and> playingAt 0 (togglePlayback b (togglePlayback a st))
         \<and> totalSteps (togglePlayback b (togglePlayback a st)) = totalSteps st
         \<and> sequencerRef (togglePlayback b (togglePlayback a st)) =
               Some \<lparr>seq_tracks = tracks st, seq_steps = totalSteps st, seq_dispose_throws = False\<rparr>"
proof -
  let ?p = "togglePlayback a st"
  have p: "?p = st\<lparr>transport := (transport st)\<lparr>t_state := Paused\<rparr>, isPlaying := False\<rparr>"
    by (rule pause_playing [OF assms])
  have pause: "position (transport ?p) = k" "t_state (transport ?p) = Paused"
      "sequencerRef ?p = sequencerRef st" "\<not> isPlaying ?p" "contextRunning ?p"
      "totalSteps ?p = totalSteps st" "tracks ?p = tracks st"
    using assms by (simp_all add: p playingAt_def)
  have halt: "transportTick time ?p = ?p"
    using pause(2) by (simp add: transportTick_def)
  have "sequencerRef ?p = None \<or> (\<exists>q. sequencerRef ?p = Some q \<and> \<not> seq_dispose_throws q)"
    using assms pause(3) by (simp add: playingAt_def)
  from start_playing [OF pause(4) _ this, of b] pause(5,6,7)
  have "playingAt 0 (togglePlayback b ?p) \<and> totalSteps (togglePlayback b ?p) = totalSteps st
        \<and> sequencerRef (togglePlayback b ?p) =
               Some \<lparr>seq_tracks = tracks st, seq_steps = totalSteps st, seq_dispose_throws = False\<rparr>"
    by simp
  with pause(1,2,3) halt show ?thesis by simp
qed

text \<open>
  Claim C2, as the code has it: from \<open>Playing\<close> at step \<open>k\<close>, \<open>togglePlayback\<close> pauses the
  transport, which keeps the position \<open>k\<close> and the built sequence and emits no tick; the
  next \<open>togglePlayback\<close> rebuilds the sequence, sets \<^verbatim>\<open>Tone.Transport.position = 0\<close> and starts
  the transport, so that the first tick after it is the tick of step 0.
\<close>

theorem pause_retains_start_rewinds:
  assumes "playingAt k st"
  shows "position (transport (togglePlayback a st)) = k
         \<and> t_state (transport (togglePlayback a st)) = Paused
         \<and> sequencerRef (togglePlayback a st) = sequencerRef st
         \<and> transportTick time (togglePlayback a st) = togglePlayback a st
         \<and> position (transport (togglePlayback b (togglePlayback a st))) = 0
         \<and> t_state (transport (togglePlayback b (togglePlayback a st))) = Started
         \<and> currentStep (transportTick time (togglePlayback b (togglePlayback a st))) = 0
         \<and> sequencerRef (togglePlayback b (togglePlayback a st)) =
               Some \<lparr>seq_tracks = tracks st, seq_steps = totalSteps st, seq_dispose_throws = False\<rparr>"
proof -
  note r = resume_after_pause [OF assms, of a time b]
  then have pl: "playingAt 0 (togglePlayback b (togglePlayback a st))" by simp
  then have "currentStep (transportTick time (togglePlayback b (togglePlayback a st))) = 0"
    by (auto simp: playingAt_def transportTick_def Let_def sequenceCallback_def)
  with r pl show ?thesis by (simp add: playingAt_def)
qed

theorem pause_retains_start_rewinds_witness:
  "position (transport (togglePlayback True playingAtFive)) = 5
   \<and> t_state (transport (togglePlayback True playingAtFive)) = Paused
   \<and> position (transport (togglePlayback True (togglePlayback True playingAtFive))) = 0
   \<and> t_state (transport (togglePlayback True (togglePlayback True playingAtFive))) = Started"
proof -
  have five: "playingAt 5 playingAtFive" using playingAtFive_playing by simp
  from pause_retains_start_rewinds [OF five, of True 0 True] show ?thesis by simp
qed

text \<open>
  Claim C2 as stated fails: paused at step 5 (five ticks after the first start), the
  transport keeps position 5, and the start that follows puts it at 0; the tick after the
  resume is the tick of step 0, not of step 5.
\<close>

theorem start_after_pause_rewinds:
  "position (transport playingAtFive) = 5
   \<and> position (transport (togglePlayback True playingAtFive)) = 5
   \<and> position (transport (togglePlayback True (togglePlayback True playingAtFive))) = 0
   \<and> currentStep (transportTick 0 (togglePlayback True (togglePlayback True playingAtFive))) = 0
   \<and> currentStep (transportTick 0 (togglePlayback True (togglePlayback True playingAtFive))) \<noteq> 5"
proof -
  have five: "playingAt 5 playingAtFive" using playingAtFive_playing by simp
  note r = resume_after_pause [OF five, of True 0 True]
  then have pl: "playingAt 0 (togglePlayback True (togglePlayback True playingAtFive))" by simp
  then have "currentStep (transportTick 0 (togglePlayback True (togglePlayback True playingAtFive))) = 0"
    by (auto simp: playingAt_def transportTick_def Let_def sequenceCallback_def)
  with five r pl show ?thesis by (simp add: playingAt_def)
qed

section \<open>The sequencer tick\<close>

lemma triggerNotes_mem:
  "Triggered i ptch dur tm \<in> set (fst (triggerNotes j synth time ns)) \<Longrightarrow>
     i = j \<and> tm = time \<and> \<not> trigger_throws synth \<and>
     (\<exists>note \<in> set ns. pitch note = ptch \<and> dur = toneDuration (duration note))"
  by (induction ns) (auto split: if_splits prod.splits)

lemma triggerNotes_all:
  "\<not> trigger_throws synth \<Longrightarrow>
   triggerNotes j synth time ns =
     (map (\<lambda>note. Triggered j (pitch note) (toneDuration (duration note)) time) ns, False)"
  by (induction ns) auto

lemma playTrack_muted: "muted track \<Longrightarrow> playTrack reg time stp track = []"
  by (simp add: playTrack_def)

lemma playTrack_absent: "map_of reg (id_track track) = None \<Longrightarrow> playTrack reg time stp track = []"
  by (simp add: playTrack_def Let_def)

lemma playTrack_not_triggerable:
  "map_of reg (id_track track) = Some synth \<Longrightarrow> \<not> has_trigger synth \<Longrightarrow>
     playTrack reg time stp track = [] \<or> playTrack reg time stp track = [ConsoleWarn (id_track track)]"
  by (simp add: playTrack_def Let_def)

lemma playTrack_triggered:
  assumes mem: "Triggered i ptch dur tm \<in> set (playTrack reg time stp track)"
  shows "\<not> muted track \<and> i = id_track track \<and> tm = time
      \<and> (\<exists>note \<in> set (notes_track track). step note = stp \<and> pitch note = ptch
            \<and> dur = toneDuration (duration note))
      \<and> (\<exists>synth. map_of reg (id_track track) = Some synth \<and> has_trigger synth)"
proof -
  have nm: "\<not> muted track" using mem playTrack_muted [of track reg time stp] by auto
  obtain synth where synth: "map_of reg (id_track track) = Some synth"
    using mem playTrack_absent [of reg track time stp] by (cases "map_of reg (id_track track)") auto
  have ht: "has_trigger synth"
  proof (rule ccontr)
    assume "\<not> has_trigger synth"
    from playTrack_not_triggerable [OF synth this, of time stp] mem show False by auto
  qed
  let ?ns = "filter (\<lambda>note. step note = stp) (notes_track track)"
  obtain es threw where tn: "triggerNotes (id_track track) synth time ?ns = (es, threw)"
    by (cases "triggerNotes (id_track track) synth time ?ns")
  have "playTrack reg time stp track =
          (if ?ns = [] then [] else if threw then es @ [ConsoleError (id_track track)] else es)"
    using nm synth ht tn by (simp add: playTrack_def Let_def)
  with mem have "Triggered i ptch dur tm \<in> set es"
    by (cases "?ns = []"; cases threw) simp_all
  with tn have "Triggered i ptch dur tm \<in> set (fst (triggerNotes (id_track track) synth time ?ns))"
    by simp
  from triggerNotes_mem [OF this] nm synth ht show ?thesis by auto
qed

text \<open>
  Claim C6: at a tick of step \<open>stp\<close>, a trigger is issued only for a note of a non-muted
  track whose step is \<open>stp\<close>, on the registered synth of the track when it can be triggered;
  a muted track and a track without a synth produce nothing, a synth that cannot be
  triggered produces at most a console warning; the callback changes the displayed step
  and nothing else of the state (nothing is queued for a later tick), and what it emits is
  a function of the sequence's tracks, the registry, the time and the step.
\<close>

theorem tick_triggers:
  "(Triggered i ptch dur tm \<in> set (playTrack reg time stp track) \<longrightarrow>
      \<not> muted track \<and> i = id_track track \<and> tm = time
      \<and> (\<exists>note \<in> set (notes_track track). step note = stp \<and> pitch note = ptch
            \<and> dur = toneDuration (duration note))
      \<and> (\<exists>synth. map_of reg (id_track track) = Some synth \<and> has_trigger synth))
   \<and> (muted track \<longrightarrow> playTrack reg time stp track = [])
   \<and> (map_of reg (id_track track) = None \<longrightarrow> playTrack reg time stp track = [])
   \<and> (map_of reg (id_track track) = Some synth \<and> \<not> has_trigger synth \<longrightarrow>
         playTrack reg time stp track = [] \<or> playTrack reg time stp track = [ConsoleWarn (id_track track)])
   \<and> tracks (sequenceCallback sq time stp st) = tracks st
   \<and> synthsRef (sequenceCallback sq time stp st) = synthsRef st
   \<and> sequencerRef (sequenceCallback sq time stp st) = sequencerRef st
   \<and> transport (sequenceCallback sq time stp st) = transport st
   \<and> events (sequenceCallback sq time stp st) =
       events st @ concat (map (playTrack (synthsRef st) time stp) (seq_tracks sq))"
proof (intro conjI impI)
  assume "Triggered i ptch dur tm \<in> set (playTrack reg time stp track)"
  note t = playTrack_triggered [OF this]
  from t show "\<not> muted track" by simp
  from t show "i = id_track track" by simp
  from t show "tm = time" by simp
  from t show "\<exists>note \<in> set (notes_track track). step note = stp \<and> pitch note = ptch
            \<and> dur = toneDuration (duration note)" by simp
  from t show "\<exists>synth. map_of reg (id_track track) = Some synth \<and> has_trigger synth" by simp
next
  assume "muted track" then show "playTrack reg time stp track = []" by (rule playTrack_muted)
next
  assume "map_of reg (id_track track) = None"
  then show "playTrack reg time stp track = []" by (rule playTrack_absent)
next
  assume "map_of reg (id_track track) = Some synth \<and> \<not> has_trigger synth"
  then show "playTrack reg time stp track = [] \<or> playTrack reg time stp track = [ConsoleWarn (id_track track)]"
    using playTrack_not_triggerable by blast
qed (simp_all add: sequenceCallback_def)

theorem tick_triggers_witness:
  "Triggered ''1'' ''C4'' ''4n'' 0 \<in> set (playTrack [(''1'', newPolySynth Synth)] 0 0 quarterNoteTrack)
   \<and> \<not> muted quarterNoteTrack
   \<and> playTrack [(''1'', newPolySynth Synth)] 0 0 (quarterNoteTrack\<lparr>muted := True\<rparr>) = []
   \<and> playTrack [] 0 0 quarterNoteTrack = []
   \<and> playTrack [(''1'', (newPolySynth Synth)\<lparr>has_trigger := False\<rparr>)] 0 0 quarterNoteTrack
       = [ConsoleWarn ''1'']"
proof -
  have mem: "Triggered ''1'' ''C4'' ''4n'' 0
               \<in> set (playTrack [(''1'', newPolySynth Synth)] 0 0 quarterNoteTrack)"
    by code_simp
  have m: "muted (quarterNoteTrack\<lparr>muted := True\<rparr>)" by simp
  have absent: "map_of [] (id_track quarterNoteTrack) = (None :: SynthHandle option)" by simp
  have warn: "playTrack [(''1'', (newPolySynth Synth)\<lparr>has_trigger := False\<rparr>)] 0 0 quarterNoteTrack
       = [ConsoleWarn ''1'']"
    by code_simp
  from tick_triggers [of "''1''" "''C4''" "''4n''" 0 "[(''1'', newPolySynth Synth)]" 0 0
      quarterNoteTrack "newPolySynth Synth" undefined initialState] mem
  have a: "\<not> muted quarterNoteTrack" by blast
  from tick_triggers [of "''1''" "''C4''" "''4n''" 0 "[(''1'', newPolySynth Synth)]" 0 0
      "quarterNoteTrack\<lparr>muted := True\<rparr>" "newPolySynth Synth" undefined initialState] m
  have b: "playTrack [(''1'', newPolySynth Synth)] 0 0 (quarterNoteTrack\<lparr>muted := True\<rparr>) = []"
    by blast
  from tick_triggers [of "''1''" "''C4''" "''4n''" 0 "[]" 0 0
      quarterNoteTrack "newPolySynth Synth" undefined initialState] absent
  have c: "playTrack [] 0 0 quarterNoteTrack = []" by blast
  from mem a b c warn show ?thesis by simp
qed

section \<open>Note durations in playback\<close>








section \<open>Voice allocation\<close>

lemma families_agree: "updateSynthFamily instr = initSynthFamily instr"
  by (simp add: updateSynthFamily_def initSynthFamily_def)

lemma unlisted_generic: "instr \<notin> set listedInstruments \<Longrightarrow> initSynthFamily instr = Synth"
  by (simp add: listedInstruments_def initSynthFamily_def)

lemma map_of_ensureSynth:
  "map_of (ensureSynth t reg) k \<noteq> None \<longleftrightarrow> k = id_track t \<or> map_of reg k \<noteq> None"
  by (auto simp: ensureSynth_def update_conv' split: option.splits)

lemma map_of_syncVolume:
  "map_of (syncVolume t reg) k \<noteq> None \<longleftrightarrow> map_of reg k \<noteq> None"
  by (auto simp: syncVolume_def update_conv' split: option.splits)

lemma map_of_fold_ensureSynth:
  "map_of (fold ensureSynth ts reg) k \<noteq> None \<longleftrightarrow> k \<in> id_track ` set ts \<or> map_of reg k \<noteq> None"
  by (induction ts arbitrary: reg) (auto simp: map_of_ensureSynth simp del: not_None_eq)

lemma map_of_fold_syncVolume:
  "map_of (fold syncVolume ts reg) k \<noteq> None \<longleftrightarrow> map_of reg k \<noteq> None"
  by (induction ts arbitrary: reg) (auto simp: map_of_syncVolume simp del: not_None_eq)

lemma initEffect_registers:
  "t \<in> set (tracks st) \<Longrightarrow> map_of (synthsRef (initEffect st)) (id_track t) \<noteq> None"
  by (simp add: initEffect_def map_of_fold_syncVolume map_of_fold_ensureSynth del: not_None_eq)

lemma updateTrackInstrument_registers:
  "\<exists>s. map_of (synthsRef (updateTrackInstrument i instr st)) i = Some s
       \<and> family s = updateSynthFamily instr"
  by (simp add: updateTrackInstrument_def Let_def update_conv' newPolySynth_def split: option.splits)

lemma ensureSynth_family:
  "map_of reg (id_track t) = None \<Longrightarrow>
     \<exists>s. map_of (ensureSynth t reg) (id_track t) = Some s \<and> family s = initSynthFamily (instrument t)"
  by (simp add: ensureSynth_def update_conv' newPolySynth_def)

text \<open>
  Claim C8: allocation is total. Both switches send every instrument name without a
  \<^verbatim>\<open>case\<close> label (such as \<open>"bass"\<close>) to the class of piano, organ, harpsichord and synthesizer,
  \<^verbatim>\<open>Tone.Synth\<close>; \<open>updateTrackInstrument\<close> registers a synth of the mapped class for any
  instrument, the initialising effect gives a track without a synth one of the mapped
  class, and after it every track has a synth.
\<close>

theorem voice_allocation_total:
  "(instr \<notin> set listedInstruments \<longrightarrow> initSynthFamily instr = Synth \<and> updateSynthFamily instr = Synth)
   \<and> initSynthFamily ''piano'' = Synth \<and> initSynthFamily ''organ'' = Synth
   \<and> initSynthFamily ''harpsichord'' = Synth \<and> initSynthFamily ''synthesizer'' = Synth
   \<and> updateSynthFamily instr = initSynthFamily instr
   \<and> (\<exists>s. map_of (synthsRef (updateTrackInstrument i instr st)) i = Some s
           \<and> family s = updateSynthFamily instr)
   \<and> (map_of reg (id_track t) = None \<longrightarrow>
        (\<exists>s. map_of (ensureSynth t reg) (id_track t) = Some s
              \<and> family s = initSynthFamily (instrument t)))
   \<and> (t \<in> set (tracks st) \<longrightarrow> map_of (synthsRef (initEffect st)) (id_track t) \<noteq> None)"
proof (intro conjI impI)
  assume "instr \<notin> set listedInstruments"
  then show "initSynthFamily instr = Synth" by (rule unlisted_generic)
  then show "updateSynthFamily instr = Synth" by (simp add: families_agree)
next
  show "\<exists>s. map_of (synthsRef (updateTrackInstrument i instr st)) i = Some s
           \<and> family s = updateSynthFamily instr"
    by (rule updateTrackInstrument_registers)
next
  assume "map_of reg (id_track t) = None"
  then show "\<exists>s. map_of (ensureSynth t reg) (id_track t) = Some s
              \<and> family s = initSynthFamily (instrument t)"
    by (rule ensureSynth_family)
next
  assume "t \<in> set (tracks st)"
  then show "map_of (synthsRef (initEffect st)) (id_track t) \<noteq> None"
    by (rule initEffect_registers)
qed (simp_all add: initSynthFamily_def families_agree)

theorem voice_allocation_total_witness:
  "initSynthFamily ''bass'' = Synth \<and> updateSynthFamily ''bass'' = Synth
   \<and> initSynthFamily ''bass'' = initSynthFamily ''piano''
   \<and> (\<exists>s. map_of (ensureSynth (initialTrack\<lparr>instrument := ''bass''\<rparr>) []) ''1'' = Some s \<and> family s = Synth)
   \<and> map_of (synthsRef (initEffect initialState)) ''1'' \<noteq> None"
proof -
  have unlisted: "''bass'' \<notin> set listedInstruments" by (simp add: listedInstruments_def)
  have absent: "map_of [] (id_track (initialTrack\<lparr>instrument := ''bass''\<rparr>)) = (None :: SynthHandle option)"
    by simp
  have mem: "initialTrack \<in> set (tracks initialState)" by (simp add: initialState_def)
  have idt: "id_track initialTrack = ''1''" by (simp add: initialTrack_def)
  note v = voice_allocation_total [of "''bass''" "''1''" initialState "[]"
         "initialTrack\<lparr>instrument := ''bass''\<rparr>"]
  from v unlisted have a1: "initSynthFamily ''bass'' = Synth" "updateSynthFamily ''bass'' = Synth"
      "initSynthFamily ''piano'' = Synth"
    by simp_all
  from v absent
  have "\<exists>s. map_of (ensureSynth (initialTrack\<lparr>instrument := ''bass''\<rparr>) [])
               (id_track (initialTrack\<lparr>instrument := ''bass''\<rparr>)) = Some s
             \<and> family s = initSynthFamily (instrument (initialTrack\<lparr>instrument := ''bass''\<rparr>))"
    by blast
  with a1(1) idt
  have a2: "\<exists>s. map_of (ensureSynth (initialTrack\<lparr>instrument := ''bass''\<rparr>) []) ''1'' = Some s
                  \<and> family s = Synth"
    by simp
  note a = a1 a2
  from voice_allocation_total [of "''bass''" "''1''" initialState "[]" initialTrack] mem idt
  have b: "map_of (synthsRef (initEffect initialState)) ''1'' \<noteq> None" by simp
  from a b show ?thesis by simp
qed

section \<open>MIDI numbers and note names\<close>

lemma lt10_cases: "d < 10 \<Longrightarrow> d \<in> {0, 1, 2, 3, 4, 5, 6, 7, 8, 9 :: nat}"
  by auto

lemma digit_char_isDigit: "d < 10 \<Longrightarrow> isDigit (digit_char d)"
  by (drule lt10_cases) (auto simp: digit_char_def isDigit_def)

lemma digit_val_digit_char: "d < 10 \<Longrightarrow> digit_val (digit_char d) = int d"
  by (drule lt10_cases) (auto simp: digit_char_def digit_val_def indexOf_def)

lemma toString_nat_digits: "\<forall>c \<in> set (toString_nat n). isDigit c"
proof (induction n rule: toString_nat.induct)
  case (1 n)
  show ?case
  proof (cases "n < 10")
    case True
    then show ?thesis by (subst toString_nat.simps) (simp add: digit_char_isDigit)
  next
    case False
    with 1 show ?thesis by (subst toString_nat.simps) (simp add: digit_char_isDigit)
  qed
qed

lemma toString_nat_nonempty: "toString_nat n \<noteq> []"
  by (subst toString_nat.simps) simp

lemma toString_nat_value: "foldl (\<lambda>acc c. 10 * acc + digit_val c) 0 (toString_nat n) = int n"
proof (induction n rule: toString_nat.induct)
  case (1 n)
  show ?case
  proof (cases "n < 10")
    case True
    then show ?thesis by (subst toString_nat.simps) (simp add: digit_val_digit_char)
  next
    case False
    with 1 have "foldl (\<lambda>acc c. 10 * acc + digit_val c) 0 (toString_nat (n div 10)) = int (n div 10)"
      by simp
    with False show ?thesis
      by (subst toString_nat.simps) (simp add: digit_val_digit_char zdiv_int zmod_int)
  qed
qed

lemma isDigit_not_sign: "isDigit c \<Longrightarrow> c \<noteq> CHR ''-'' \<and> c \<noteq> CHR ''+''"
  by (auto simp: isDigit_def)

lemma isDigit_octave: "isDigit c \<Longrightarrow> isOctaveChar c"
  by (auto simp: isDigit_def isOctaveChar_def)

lemma isOctaveChar_not_accidental: "isOctaveChar c \<Longrightarrow> \<not> isAccidental c"
  by (auto simp: isOctaveChar_def isAccidental_def)

lemma takeWhile_all: "\<forall>c \<in> set xs. P c \<Longrightarrow> takeWhile P xs = xs"
  by (simp add: takeWhile_eq_all_conv)

lemma minus_octave: "isOctaveChar CHR ''-''"
  by (simp add: isOctaveChar_def)

lemma parseInt_digits:
  assumes "\<forall>c \<in> set ds. isDigit c" "ds \<noteq> []"
  shows "parseInt ds = Num (foldl (\<lambda>acc c. 10 * acc + digit_val c) 0 ds)"
proof -
  from assms obtain c r where ds: "ds = c # r" by (cases ds) auto
  with assms(1) have dc: "isDigit c" and dr: "\<forall>x \<in> set r. isDigit x" by simp_all
  from dc have "c \<noteq> CHR ''-'' \<and> c \<noteq> CHR ''+''" by (rule isDigit_not_sign)
  with dc dr show ?thesis by (simp add: ds parseInt_def Let_def takeWhile_all)
qed

lemma parseInt_minus_digits:
  assumes "\<forall>c \<in> set ds. isDigit c" "ds \<noteq> []"
  shows "parseInt (CHR ''-'' # ds) = Num (- foldl (\<lambda>acc c. 10 * acc + digit_val c) 0 ds)"
proof -
  from assms obtain c r where ds: "ds = c # r" by (cases ds) auto
  with assms(1) have "isDigit c" and "\<forall>x \<in> set r. isDigit x" by simp_all
  then show ?thesis by (simp add: ds parseInt_def Let_def takeWhile_all)
qed

lemma parseInt_toString_int: "parseInt (toString_int k) = Num k"
proof (cases "k < 0")
  case True
  then show ?thesis
    by (simp add: toString_int_def parseInt_minus_digits toString_nat_digits toString_nat_nonempty
        toString_nat_value)
next
  case False
  then show ?thesis
    by (simp add: toString_int_def parseInt_digits toString_nat_digits toString_nat_nonempty
        toString_nat_value)
qed

lemma toString_int_octave: "\<forall>c \<in> set (toString_int k). isOctaveChar c"
  by (auto simp: toString_int_def minus_octave intro!: isDigit_octave toString_nat_digits [rule_format])

lemma toString_int_nonempty: "toString_int k \<noteq> []"
  by (simp add: toString_int_def toString_nat_nonempty)

lemma matchHere_natural:
  assumes "isNoteLetter c"
  shows "matchHere (c # toString_int k) = Some (c, None, toString_int k)"
proof -
  obtain a r where ar: "toString_int k = a # r" using toString_int_nonempty by (cases "toString_int k") auto
  have oa: "isOctaveChar a" and orr: "\<forall>x \<in> set r. isOctaveChar x"
    using toString_int_octave [of k] ar by simp_all
  from oa have na: "\<not> isAccidental a" by (rule isOctaveChar_not_accidental)
  have "matchHere (c # a # r) = Some (c, None, a # r)"
    using assms na oa orr by (simp add: takeWhile_all)
  with ar show ?thesis by simp
qed

lemma matchHere_sharp:
  assumes "isNoteLetter c"
  shows "matchHere (c # CHR ''#'' # toString_int k) = Some (c, Some CHR ''#'', toString_int k)"
proof -
  obtain a r where ar: "toString_int k = a # r" using toString_int_nonempty by (cases "toString_int k") auto
  have oa: "isOctaveChar a" and orr: "\<forall>x \<in> set r. isOctaveChar x"
    using toString_int_octave [of k] ar by simp_all
  have "matchHere (c # CHR ''#'' # a # r) = Some (c, Some CHR ''#'', a # r)"
    using assms oa orr by (simp add: isAccidental_def takeWhile_all)
  with ar show ?thesis by simp
qed

lemma noteNameToMidi_natural:
  assumes "isNoteLetter c"
  shows "noteNameToMidi (c # toString_int k) = Num ((k + 1) * 12 + indexOf noteNames [c])"
  using matchHere_natural [OF assms, of k]
  by (simp add: noteNameToMidi_def parseInt_toString_int Let_def)

lemma noteNameToMidi_sharp:
  assumes "isNoteLetter c"
  shows "noteNameToMidi (c # CHR ''#'' # toString_int k) = Num ((k + 1) * 12 + (indexOf noteNames [c] + 1))"
  using matchHere_sharp [OF assms, of k]
  by (simp add: noteNameToMidi_def parseInt_toString_int Let_def)

lemma lt12_cases:
  "r < 12 \<Longrightarrow> r = 0 \<or> r = 1 \<or> r = 2 \<or> r = 3 \<or> r = 4 \<or> r = 5 \<or> r = 6 \<or> r = 7 \<or> r = 8
     \<or> r = 9 \<or> r = 10 \<or> r = (11 :: nat)"
  by arith

lemma noteNames_nth:
  "noteNames ! 0 = ''C''" "noteNames ! 1 = ''C#''" "noteNames ! Suc 0 = ''C#''" "noteNames ! 2 = ''D''" "noteNames ! 3 = ''D#''"
  "noteNames ! 4 = ''E''" "noteNames ! 5 = ''F''" "noteNames ! 6 = ''F#''" "noteNames ! 7 = ''G''"
  "noteNames ! 8 = ''G#''" "noteNames ! 9 = ''A''" "noteNames ! 10 = ''A#''" "noteNames ! 11 = ''B''"
  by (simp_all add: noteNames_def)

lemma noteName_index:
  assumes "r < 12"
  shows "noteNameToMidi (noteNames ! r @ toString_int k) = Num ((k + 1) * 12 + int r)"
proof -
  have letters: "isNoteLetter CHR ''C''" "isNoteLetter CHR ''D''" "isNoteLetter CHR ''E''"
    "isNoteLetter CHR ''F''" "isNoteLetter CHR ''G''" "isNoteLetter CHR ''A''" "isNoteLetter CHR ''B''"
    by (simp_all add: isNoteLetter_def)
  have idx: "indexOf noteNames ''C'' = 0" "indexOf noteNames ''D'' = 2" "indexOf noteNames ''E'' = 4"
    "indexOf noteNames ''F'' = 5" "indexOf noteNames ''G'' = 7" "indexOf noteNames ''A'' = 9"
    "indexOf noteNames ''B'' = 11"
    by (simp_all add: indexOf_def noteNames_def)
  from lt12_cases [OF assms] show ?thesis
    by (elim disjE)
       (simp_all add: noteNames_nth noteNameToMidi_natural noteNameToMidi_sharp letters idx)
qed

lemma midi_roundtrip_all: "noteNameToMidi (midiToNoteName m) = Num (int m)"
proof -
  have "noteNameToMidi (midiToNoteName m) = Num ((int (m div 12) - 1 + 1) * 12 + int (m mod 12))"
    by (simp add: midiToNoteName_def Let_def noteName_index)
  also have "(int (m div 12) - 1 + 1) * 12 + int (m mod 12) = int m"
    by (simp add: zdiv_int zmod_int)
  finally show ?thesis .
qed

lemma matchHere_matches:
  assumes "matchHere suf = Some g"
  shows "matchesPitchPattern (pre @ suf @ [])"
proof -
  from assms obtain c rest where suf: "suf = c # rest" by (cases suf) auto
  from assms suf have c: "isNoteLetter c" by (auto split: if_splits)
  from assms suf c obtain a rest' where rest: "rest = a # rest'" by (cases rest) auto
  show ?thesis
  proof (cases "isAccidental a \<and> takeWhile isOctaveChar rest' \<noteq> []")
    case True
    let ?oct = "takeWhile isOctaveChar rest'"
    have "pre @ suf @ [] = pre @ c # [a] @ ?oct @ dropWhile isOctaveChar rest'"
      by (simp add: suf rest)
    moreover have "[a] = ''#'' \<or> [a] = ''b''" using True by (auto simp: isAccidental_def)
    moreover have "\<forall>x \<in> set ?oct. isOctaveChar x" by (auto dest: set_takeWhileD)
    ultimately show ?thesis using c True unfolding matchesPitchPattern_def by blast
  next
    case False
    let ?oct = "takeWhile isOctaveChar rest"
    from assms suf rest c False have ne: "?oct \<noteq> []" by (auto split: if_splits)
    have "pre @ suf @ [] = pre @ c # [] @ ?oct @ dropWhile isOctaveChar rest"
      by (simp add: suf)
    moreover have "\<forall>x \<in> set ?oct. isOctaveChar x" by (auto dest: set_takeWhileD)
    ultimately show ?thesis using c ne unfolding matchesPitchPattern_def by blast
  qed
qed

lemma matchPitch_matches:
  "matchPitch s = Some g \<Longrightarrow> matchesPitchPattern (pre @ s)"
proof (induction s arbitrary: pre)
  case Nil
  then show ?case by simp
next
  case (Cons c rest)
  show ?case
  proof (cases "matchHere (c # rest)")
    case None
    with Cons.prems have "matchPitch rest = Some g" by simp
    from Cons.IH [OF this, of "pre @ [c]"] show ?thesis by simp
  next
    case (Some g')
    from matchHere_matches [OF this, of pre] show ?thesis by simp
  qed
qed

lemma no_match_default: "\<not> matchesPitchPattern s \<Longrightarrow> noteNameToMidi s = Num 60"
proof -
  assume nm: "\<not> matchesPitchPattern s"
  have "matchPitch s = None"
  proof (cases "matchPitch s")
    case (Some g)
    from matchPitch_matches [OF this, of "[]"] nm show ?thesis by simp
  qed simp
  then show ?thesis by (simp add: noteNameToMidi_def)
qed

lemma matchHere_complete:
  assumes c: "isNoteLetter c" and acc: "acc = [] \<or> acc = ''#'' \<or> acc = ''b''"
    and oct: "oct \<noteq> []" "\<forall>x \<in> set oct. isOctaveChar x"
  shows "matchHere (c # acc @ oct @ post) \<noteq> None"
proof -
  from oct obtain a r where ar: "oct = a # r" "isOctaveChar a" by (cases oct) auto
  then have na: "\<not> isAccidental a" by (simp add: isOctaveChar_not_accidental)
  from acc show ?thesis
  proof (elim disjE)
    assume "acc = []"
    with c ar na show ?thesis by simp
  next
    assume "acc = ''#''"
    with c ar show ?thesis by (simp add: isAccidental_def)
  next
    assume "acc = ''b''"
    with c ar show ?thesis by (simp add: isAccidental_def)
  qed
qed

lemma matchPitch_here:
  assumes "matchHere suf \<noteq> None"
  shows "matchPitch suf \<noteq> None"
proof (cases suf)
  case Nil
  with assms show ?thesis by simp
next
  case (Cons c rest)
  with assms show ?thesis by (cases "matchHere (c # rest)") (simp_all del: matchHere.simps)
qed

lemma matchPitch_complete_aux:
  "matchHere suf \<noteq> None \<Longrightarrow> matchPitch (pre @ suf) \<noteq> None"
proof (induction pre)
  case Nil
  then show ?case by (simp add: matchPitch_here)
next
  case (Cons x pre)
  then show ?case by (cases "matchHere (x # pre @ suf)") (simp_all del: matchHere.simps)
qed

lemma matchPitch_complete: "matchesPitchPattern s \<Longrightarrow> matchPitch s \<noteq> None"
  unfolding matchesPitchPattern_def
  using matchHere_complete matchPitch_complete_aux by blast


lemma matchesPitchPattern_iff: "matchesPitchPattern s \<longleftrightarrow> matchPitch s \<noteq> None"
proof
  assume "matchesPitchPattern s"
  then show "matchPitch s \<noteq> None" by (rule matchPitch_complete)
next
  assume "matchPitch s \<noteq> None"
  then obtain g where "matchPitch s = Some g" by auto
  from matchPitch_matches [OF this, of "[]"] show "matchesPitchPattern s" by simp
qed

text \<open>
  Claim C10: for every MIDI number \<open>m\<close> from 0 to 127, \<open>noteNameToMidi (midiToNoteName m)\<close> is
  \<open>m\<close> (it is so for every natural number, \<open>midi_roundtrip_all\<close>); and on a string in which
  the pattern \<^verbatim>\<open>/([A-G])(#|b)?([-0-9]+)/\<close> matches nowhere, \<open>noteNameToMidi\<close> returns 60.
\<close>

theorem midi_roundtrip_and_default:
  "(m \<le> 127 \<longrightarrow> noteNameToMidi (midiToNoteName m) = Num (int m))
   \<and> (\<not> matchesPitchPattern s \<longrightarrow> noteNameToMidi s = Num 60)"
  by (simp add: midi_roundtrip_all no_match_default)

theorem midi_roundtrip_and_default_witness:
  "midiToNoteName 61 = ''C#4'' \<and> noteNameToMidi (midiToNoteName 61) = Num 61
   \<and> midiToNoteName 0 = ''C-1'' \<and> noteNameToMidi (midiToNoteName 0) = Num 0
   \<and> matchPitch ''xyz'' = None \<and> noteNameToMidi ''xyz'' = Num 60"
proof -
  have names: "midiToNoteName 61 = ''C#4''" "midiToNoteName 0 = ''C-1''" by code_simp+
  have none: "matchPitch ''xyz'' = None" by code_simp
  then have nomatch: "\<not> matchesPitchPattern ''xyz''" by (simp add: matchesPitchPattern_iff)
  from midi_roundtrip_and_default [of 61 "''xyz''"] nomatch
  have a: "noteNameToMidi (midiToNoteName 61) = Num 61" "noteNameToMidi ''xyz'' = Num 60"
    by simp_all
  from midi_roundtrip_and_default [of 0 "''xyz''"]
  have b: "noteNameToMidi (midiToNoteName 0) = Num 0" by simp
  from names none a b show ?thesis by simp
qed

end
